theory Spec2Isabelle
  imports Main "HOL-Library.Word"
begin

section \<open>tcpm: a tiny cooperative process manager (src/tcpm/src/tcpm.c)\<close>

text \<open>
  The embedding is sequential: one thread runs one library call at a time, so an atomic
  load reads the field, an atomic store writes it, and a compare-and-exchange never
  fails spuriously. Every function that can leave the C abstract machine without a
  result returns \<open>None\<close>: a null or out-of-bounds dereference, a remainder by zero, a
  call through a null function pointer, or a retry loop that no other thread will ever
  release. \<open>Some\<close> carries the returned value and the updated memory.
\<close>

subsection \<open>Pointers and machine integers\<close>

text \<open>
  \<open>void *\<close> payloads, \<open>Process *\<close> and function pointers are addresses or \<open>NULL\<close>.
  A \<open>Process *\<close> always points into the runtime's process array, so its address is the
  array index.
\<close>

datatype ptr = NULL | Addr nat

type_synonym u32 = "32 word"

subsection \<open>Spin lock (lines 30-49)\<close>

text \<open>
  \<open>atomic_compare_exchange_weak(obj, &expected, desired)\<close>: the result is the success
  flag, the new value of the object and the new value of \<open>expected\<close>.
\<close>

definition atomic_compare_exchange :: "'a \<Rightarrow> 'a \<Rightarrow> 'a \<Rightarrow> bool \<times> 'a \<times> 'a" where
  "atomic_compare_exchange obj expected desired =
     (if obj = expected then (True, desired, expected) else (False, obj, obj))"

text \<open>
  \<open>spinLock\<close> and \<open>spinUnlock\<close> keep \<open>expected\<close> across iterations, as the source does:
  a failed exchange overwrites it with the value found. The loops carry the lock and
  \<open>expected\<close>, and return the final value of the lock.
\<close>

function spinLock_loop :: "bool \<Rightarrow> bool \<Rightarrow> bool" where
  "spinLock_loop lock expected =
     (case atomic_compare_exchange lock expected True of
        (True, lock', _) \<Rightarrow> lock'
      | (False, lock', expected') \<Rightarrow> spinLock_loop lock' expected')"
  by pat_completeness auto
termination
  by (relation "measure (\<lambda>(lock, expected). if lock = expected then 0 else 1)")
     (auto simp: atomic_compare_exchange_def split: if_splits)

definition spinLock :: "bool \<Rightarrow> bool" where
  "spinLock lock = spinLock_loop lock False"

function spinUnlock_loop :: "bool \<Rightarrow> bool \<Rightarrow> bool" where
  "spinUnlock_loop lock expected =
     (case atomic_compare_exchange lock expected False of
        (True, lock', _) \<Rightarrow> lock'
      | (False, lock', expected') \<Rightarrow> spinUnlock_loop lock' expected')"
  by pat_completeness auto
termination
  by (relation "measure (\<lambda>(lock, expected). if lock = expected then 0 else 1)")
     (auto simp: atomic_compare_exchange_def split: if_splits)

definition spinUnlock :: "bool \<Rightarrow> bool" where
  "spinUnlock lock = spinUnlock_loop lock True"

text \<open>\<open>spinTryLock\<close> returns the success flag and the new value of the lock.\<close>

definition spinTryLock :: "bool \<Rightarrow> bool \<times> bool" where
  "spinTryLock lock =
     (case atomic_compare_exchange lock False True of (ok, lock', _) \<Rightarrow> (ok, lock'))"

subsection \<open>Bounded queue (lines 58-129)\<close>

record Element =
  seq :: u32
  data :: ptr

text \<open>
  \<open>elements\<close> is \<open>None\<close> for a null array pointer. \<open>lastq\<close> is the field \<open>last\<close>.
  \<open>elementRelease\<close> is a function pointer; the model only needs to tell the null pointer,
  the library's own \<open>processRelease\<close> and the user's functions apart.
\<close>

datatype ElementRelease = NoRelease | ProcessRelease | UserRelease nat

record BoundedQueue =
  cap :: u32
  elements :: "Element list option"
  first :: u32
  lastq :: u32
  elementRelease :: ElementRelease

definition BoundedQueue_init :: "u32 \<Rightarrow> ElementRelease \<Rightarrow> BoundedQueue" where
  "BoundedQueue_init c er =
     \<lparr> cap = c,
       elements = Some (map (\<lambda>i. \<lparr> seq = of_nat i, data = NULL \<rparr>) [0 ..< unat c]),
       first = 0,
       lastq = 0,
       elementRelease = er \<rparr>"

text \<open>
  \<open>(int32_t)a - (int32_t)b\<close> as the compiled program computes it: both words are read as
  two's-complement integers and the difference wraps around to 32 bits.
\<close>

definition int32_diff :: "u32 \<Rightarrow> u32 \<Rightarrow> int" where
  "int32_diff a b = signed_take_bit 31 (sint a - sint b)"

text \<open>
  The slot \<open>&bq->elements[pos % bq->cap]\<close>: its index and its contents, when the array is
  there, the capacity is not zero and the index is inside the array.
\<close>

definition slot_at :: "BoundedQueue \<Rightarrow> u32 \<Rightarrow> (Element list \<times> nat \<times> Element) option" where
  "slot_at bq pos =
     (case elements bq of
        None \<Rightarrow> None
      | Some els \<Rightarrow>
          if cap bq = 0 then None
          else let i = unat (pos mod cap bq)
               in if i < length els then Some (els, i, els ! i) else None)"

text \<open>
  The loop of \<open>BoundedQueue_push\<close>, with the local \<open>last\<close> as an argument. The result is
  the returned flag and the queue.
\<close>

partial_function (option) push_loop :: "BoundedQueue \<Rightarrow> ptr \<Rightarrow> u32 \<Rightarrow> (bool \<times> BoundedQueue) option" where
  "push_loop bq d lastv =
     (case slot_at bq lastv of
        None \<Rightarrow> None
      | Some (els, i, el) \<Rightarrow>
          let diff = int32_diff (seq el) lastv
          in (case (if diff = 0 then atomic_compare_exchange (lastq bq) lastv (lastv + 1)
                    else (False, lastq bq, lastv)) of
                (ok, l', _) \<Rightarrow>
                  if ok then
                    Some (True, bq\<lparr> lastq := l',
                                    elements := Some (els[i := \<lparr> seq = lastv + 1, data = d \<rparr>]) \<rparr>)
                  else if diff < 0 then Some (False, bq\<lparr> lastq := l' \<rparr>)
                  else push_loop (bq\<lparr> lastq := l' \<rparr>) d l'))"

declare push_loop.simps [code]

definition BoundedQueue_push :: "BoundedQueue \<Rightarrow> ptr \<Rightarrow> (bool \<times> BoundedQueue) option" where
  "BoundedQueue_push bq d = push_loop bq d (lastq bq)"

text \<open>The loop of \<open>BoundedQueue_pop\<close>; the result is the returned pointer and the queue.\<close>

partial_function (option) pop_loop :: "BoundedQueue \<Rightarrow> u32 \<Rightarrow> (ptr \<times> BoundedQueue) option" where
  "pop_loop bq firstv =
     (case slot_at bq firstv of
        None \<Rightarrow> None
      | Some (els, i, el) \<Rightarrow>
          let diff = int32_diff (seq el) (firstv + 1)
          in (case (if diff = 0 then atomic_compare_exchange (first bq) firstv (firstv + 1)
                    else (False, first bq, firstv)) of
                (ok, f', _) \<Rightarrow>
                  if ok then
                    Some (data el, bq\<lparr> first := f',
                                       elements := Some (els[i := el\<lparr> seq := firstv + cap bq \<rparr>]) \<rparr>)
                  else if diff < 0 then Some (NULL, bq\<lparr> first := f' \<rparr>)
                  else pop_loop (bq\<lparr> first := f' \<rparr>) f'))"

declare pop_loop.simps [code]

definition BoundedQueue_pop :: "BoundedQueue \<Rightarrow> (ptr \<times> BoundedQueue) option" where
  "BoundedQueue_pop bq = pop_loop bq (first bq)"

subsection \<open>Sequential executions of a queue\<close>

datatype qop = Push ptr | Pop

datatype qres = Pushed bool | Popped ptr

fun run_ops :: "BoundedQueue \<Rightarrow> qop list \<Rightarrow> (qres list \<times> BoundedQueue) option" where
  "run_ops bq [] = Some ([], bq)"
| "run_ops bq (Push d # ops) =
     (case BoundedQueue_push bq d of
        None \<Rightarrow> None
      | Some (r, bq') \<Rightarrow> map_option (\<lambda>(rs, q). (Pushed r # rs, q)) (run_ops bq' ops))"
| "run_ops bq (Pop # ops) =
     (case BoundedQueue_pop bq of
        None \<Rightarrow> None
      | Some (r, bq') \<Rightarrow> map_option (\<lambda>(rs, q). (Popped r # rs, q)) (run_ops bq' ops))"

text \<open>
  The results of a sequential execution on a freshly initialised queue of capacity \<open>c\<close>,
  and the number of pushes in an execution.
\<close>

definition results :: "u32 \<Rightarrow> qop list \<Rightarrow> qres list option" where
  "results c ops = map_option fst (run_ops (BoundedQueue_init c NoRelease) ops)"

fun pushes :: "qop list \<Rightarrow> nat" where
  "pushes [] = 0"
| "pushes (Push d # ops) = Suc (pushes ops)"
| "pushes (Pop # ops) = pushes ops"

text \<open>
  The payloads a queue stores, oldest first: those of the \<open>last - first\<close> slots from the
  cursor \<open>first\<close> on, each at the index the code computes for its position.
\<close>

definition stored :: "BoundedQueue \<Rightarrow> ptr list" where
  "stored bq =
     (case elements bq of
        None \<Rightarrow> []
      | Some els \<Rightarrow>
          map (\<lambda>j. data (els ! unat ((first bq + of_nat j) mod cap bq)))
            [0 ..< unat (lastq bq - first bq)])"

text \<open>
  The queue of the specification, following its words: a list of at most \<open>c\<close> payloads;
  push fails when \<open>c\<close> payloads are stored and appends otherwise; pop answers empty
  (\<open>NULL\<close>) when none is stored and removes the oldest otherwise.
\<close>

fun fifo_step :: "nat \<Rightarrow> ptr list \<Rightarrow> qop \<Rightarrow> qres \<times> ptr list" where
  "fifo_step c xs (Push d) = (if length xs = c then (Pushed False, xs) else (Pushed True, xs @ [d]))"
| "fifo_step c [] Pop = (Popped NULL, [])"
| "fifo_step c (x # xs) Pop = (Popped x, xs)"

fun fifo_run :: "nat \<Rightarrow> ptr list \<Rightarrow> qop list \<Rightarrow> qres list \<times> ptr list" where
  "fifo_run c xs [] = ([], xs)"
| "fifo_run c xs (a # ops) =
     (case fifo_step c xs a of (r, xs') \<Rightarrow>
        (case fifo_run c xs' ops of (rs, xs'') \<Rightarrow> (r # rs, xs'')))"

text \<open>
  The ring invariant: \<open>F\<close> pops and \<open>F + length xs\<close> pushes have succeeded, the slot of
  every position \<open>k\<close> of the window \<open>F ..< F + cap\<close> carries the sequence number \<open>k + 1\<close>
  and its payload when it is filled, and \<open>k\<close> when it is free.
\<close>

definition ring_inv :: "nat \<Rightarrow> ptr list \<Rightarrow> BoundedQueue \<Rightarrow> bool" where
  "ring_inv F xs bq \<longleftrightarrow>
     (\<exists>els. elements bq = Some els \<and> length els = unat (cap bq) \<and> 2 \<le> unat (cap bq)
        \<and> length xs \<le> unat (cap bq)
        \<and> first bq = of_nat F \<and> lastq bq = of_nat (F + length xs)
        \<and> (\<forall>k. F \<le> k \<and> k < F + unat (cap bq) \<longrightarrow>
              (if k < F + length xs
               then els ! (k mod unat (cap bq)) = \<lparr> seq = of_nat (k + 1), data = xs ! (k - F) \<rparr>
               else seq (els ! (k mod unat (cap bq))) = of_nat k)))"

subsection \<open>Processes and the runtime (internals.h is not part of the sources)\<close>

text \<open>
  The declarations of \<open>internals.h\<close> are read off their uses in \<open>tcpm.c\<close>: the enumerations
  from the enumerators that occur, the structures from the fields that are accessed.
  Identifiers and counters are the 32-bit unsigned integers the source loads them into.

  Modelled from the spec: the type of the field \<open>gen\<close> of a process and of a PID, which
  \<open>internals.h\<close> declares and \<open>tcpm.c\<close> only stores 0 into, increments and compares. The
  specification calls it a monotonic generation counter that is never decremented, so it
  is a natural number here; a counter of \<open>n\<close> bits is this one as long as a slot has retired
  fewer than \<open>2^n\<close> times.
\<close>

datatype ProcessContinuation = PCT_STOP | PCT_WAIT_MESSAGE | PCT_CONTINUE

datatype RunningState = PS_RUNNING | PS_WAITING

datatype DQState = DQS_RUNNING | DQS_STOPPED

datatype SendResult = SEND_SUCCESS | SEND_FAIL | ACTOR_IS_DEAD

datatype MessageAction = MA_KEEP | MA_REMOVE

text \<open>
  \<open>proc_id\<close> is the field \<open>id\<close>. \<open>parent\<close> is a \<open>Process *\<close>, \<open>processQueue\<close> a
  \<open>ProcessQueue *\<close>, \<open>handler\<close> and \<open>releaseState\<close> are function pointers, \<open>state\<close> is the
  user's \<open>void *\<close>.
\<close>

record Process =
  proc_id :: u32
  gen :: nat
  parent :: ptr
  processQueue :: ptr
  handler :: ptr
  releaseState :: ptr
  state :: ptr
  runningState :: RunningState
  maxMessagePerCycle :: u32
  messageQueue :: BoundedQueue
  releaseLock :: bool

record PID =
  pq :: ptr
  pid_id :: u32
  pid_gen :: nat

record ProcessSpawnParameters =
  p_handler :: ptr
  initialState :: ptr
  p_releaseState :: ptr
  messageRelease :: ElementRelease
  messageCap :: u32
  p_maxMessagePerCycle :: u32

text \<open>
  The trace records, in program order, the calls the library makes to the user's
  functions and to the thread library, and the steps of the locking protocol the
  specification orders: taking and releasing a \<open>releaseLock\<close>, incrementing a \<open>gen\<close>,
  freeing an inbox, returning a slot to \<open>procPool\<close>. Slots are named by their index.
  A handler call is recorded with the code the handler returned. \<open>Under p e\<close> is the
  event \<open>e\<close> of a step that found the \<open>releaseLock\<close> of slot \<open>p\<close> set.
\<close>

datatype event =
    LockAcquired nat
  | LockReleased nat
  | GenIncremented nat
  | CallHandler ptr ptr ptr ProcessContinuation
  | CallReleaseState ptr ptr
  | CallElementRelease nat ptr
  | InboxFreed nat
  | PoolPush nat
  | Yield
  | Join nat
  | Under nat event

text \<open>
  \<open>addr\<close> is the address of the runtime object, for the pointers to it in PIDs and
  processes. \<open>qstate\<close> is the field \<open>state\<close>. \<open>currentProcess\<close> is the value of the
  thread-specific key in the calling thread. \<open>trace\<close> is the trace above.
\<close>

record ProcessQueue =
  addr :: nat
  processCap :: u32
  threadCount :: u32
  processes :: "Process list"
  runQueue :: BoundedQueue
  procPool :: BoundedQueue
  procCount :: u32
  qstate :: DQState
  currentProcess :: ptr
  trace :: "event list"

definition emit :: "event \<Rightarrow> ProcessQueue \<Rightarrow> ProcessQueue" where
  "emit e w = w\<lparr> trace := trace w @ [e] \<rparr>"

text \<open>
  The steps of a retirement, and the release of a message that a send could not store,
  are recorded with the \<open>releaseLock\<close> of their slot as it is in memory at that moment.
\<close>

definition emit_under :: "nat \<Rightarrow> event \<Rightarrow> ProcessQueue \<Rightarrow> ProcessQueue" where
  "emit_under p e w = emit (if releaseLock (processes w ! p) then Under p e else e) w"

definition upd_proc :: "nat \<Rightarrow> (Process \<Rightarrow> Process) \<Rightarrow> ProcessQueue \<Rightarrow> ProcessQueue" where
  "upd_proc p f w = w\<lparr> processes := (processes w)[p := f (processes w ! p)] \<rparr>"

text \<open>The inbox of slot \<open>p\<close> and the run queue, as places a queue function works on.\<close>

definition get_inbox :: "nat \<Rightarrow> ProcessQueue \<Rightarrow> BoundedQueue" where
  "get_inbox p w = messageQueue (processes w ! p)"

definition put_inbox :: "nat \<Rightarrow> BoundedQueue \<Rightarrow> ProcessQueue \<Rightarrow> ProcessQueue" where
  "put_inbox p bq w = upd_proc p (\<lambda>proc. proc\<lparr> messageQueue := bq \<rparr>) w"

definition put_runQueue :: "BoundedQueue \<Rightarrow> ProcessQueue \<Rightarrow> ProcessQueue" where
  "put_runQueue bq w = w\<lparr> runQueue := bq \<rparr>"

subsection \<open>BoundedQueue\_release (lines 72-82)\<close>

text \<open>
  The queue lives inside the runtime (\<open>get\<close>, \<open>put\<close>), and \<open>call\<close> runs the function
  pointer \<open>bq->elementRelease\<close> on an element. The loop pops until \<open>BoundedQueue_pop\<close>
  returns \<open>NULL\<close>.
\<close>

partial_function (option) release_loop ::
  "('s \<Rightarrow> BoundedQueue) \<Rightarrow> (BoundedQueue \<Rightarrow> 's \<Rightarrow> 's) \<Rightarrow> (ElementRelease \<Rightarrow> ptr \<Rightarrow> 's \<Rightarrow> 's option)
     \<Rightarrow> 's \<Rightarrow> 's option" where
  "release_loop get put call s =
     (case BoundedQueue_pop (get s) of
        None \<Rightarrow> None
      | Some (element, bq') \<Rightarrow>
          if element = NULL then Some (put bq' s)
          else (case call (elementRelease bq') element (put bq' s) of
                  None \<Rightarrow> None
                | Some s' \<Rightarrow> release_loop get put call s'))"

declare release_loop.simps [code]

definition BoundedQueue_release ::
  "('s \<Rightarrow> BoundedQueue) \<Rightarrow> (BoundedQueue \<Rightarrow> 's \<Rightarrow> 's) \<Rightarrow> (ElementRelease \<Rightarrow> ptr \<Rightarrow> 's \<Rightarrow> 's option)
     \<Rightarrow> 's \<Rightarrow> 's option" where
  "BoundedQueue_release get put call s =
     (case (if elementRelease (get s) \<noteq> NoRelease then release_loop get put call s else Some s) of
        None \<Rightarrow> None
      | Some s' \<Rightarrow> Some (put ((get s')\<lparr> elements := None \<rparr>) s'))"

text \<open>
  The release function of an inbox is the user's \<open>messageRelease\<close>; a call through the null
  pointer has no result. \<open>processRelease\<close> is static, so no inbox carries it. \<open>rec\<close> is
  \<open>emit\<close> or \<open>emit_under p\<close>.
\<close>

definition call_messageRelease ::
  "(event \<Rightarrow> ProcessQueue \<Rightarrow> ProcessQueue) \<Rightarrow> ElementRelease \<Rightarrow> ptr \<Rightarrow> ProcessQueue
     \<Rightarrow> ProcessQueue option" where
  "call_messageRelease rec er element w =
     (case er of
        UserRelease f \<Rightarrow> Some (rec (CallElementRelease f element) w)
      | _ \<Rightarrow> None)"

subsection \<open>processRelease (lines 142-157)\<close>

definition processRelease :: "ptr \<Rightarrow> ProcessQueue \<Rightarrow> ProcessQueue option" where
  "processRelease procp w =
     (case procp of
        NULL \<Rightarrow> None
      | Addr p \<Rightarrow>
          if \<not> p < length (processes w) then None
          else
            let w1 = emit (LockAcquired p)
                       (upd_proc p (\<lambda>proc. proc\<lparr> releaseLock := spinLock (releaseLock proc) \<rparr>) w);
                w2 = emit_under p (GenIncremented p)
                       (upd_proc p (\<lambda>proc. proc\<lparr> gen := gen proc + 1 \<rparr>) w1);
                proc = processes w2 ! p;
                w3 = (if releaseState proc \<noteq> NULL
                      then emit_under p (CallReleaseState (releaseState proc) (state proc)) w2 else w2)
            in case BoundedQueue_release (get_inbox p) (put_inbox p)
                      (call_messageRelease (emit_under p)) w3 of
                 None \<Rightarrow> None
               | Some w4 \<Rightarrow>
                   if processQueue (processes w4 ! p) \<noteq> Addr (addr w4) then None
                   else
                     (case BoundedQueue_push (procPool w4) (Addr p) of
                        None \<Rightarrow> None
                      | Some (_, pool') \<Rightarrow>
                          Some (emit (LockReleased p)
                                  (upd_proc p (\<lambda>proc. proc\<lparr> releaseLock := spinUnlock (releaseLock proc) \<rparr>)
                                     (emit_under p (PoolPush p)
                                        ((emit_under p (InboxFreed p) w4)\<lparr> procPool := pool' \<rparr>))))))"


subsection \<open>handleProcess and the worker (lines 159-216)\<close>

text \<open>
  The user's handlers are a parameter: \<open>H f st msg w\<close> is what the handler at address \<open>f\<close>
  returns, and the runtime it leaves, when called with the state \<open>st\<close> and the message
  \<open>msg\<close> in the runtime \<open>w\<close>. A handler can reach the runtime only through the library, so
  it cannot write the trace; the model restores it and records the call.
\<close>

type_synonym handlers = "nat \<Rightarrow> ptr \<Rightarrow> ptr \<Rightarrow> ProcessQueue \<Rightarrow> ProcessContinuation \<times> ProcessQueue"

definition handleProcess :: "handlers \<Rightarrow> nat \<Rightarrow> ptr \<Rightarrow> ProcessQueue \<Rightarrow> (bool \<times> ProcessQueue) option" where
  "handleProcess H p msg w =
     (if \<not> p < length (processes w) then None
      else
        let w1 = w\<lparr> currentProcess := Addr p \<rparr>;
            proc = processes w1 ! p
        in case handler proc of
             NULL \<Rightarrow> None
           | Addr f \<Rightarrow>
               (case H f (state proc) msg w1 of (pct, w2) \<Rightarrow>
                  let w3 = w2\<lparr> trace := trace w1 @ [CallHandler (handler proc) (state proc) msg pct] \<rparr>
                  in case pct of
                       PCT_STOP \<Rightarrow> map_option (Pair False) (processRelease (Addr p) w3)
                     | PCT_WAIT_MESSAGE \<Rightarrow>
                         if \<not> p < length (processes w3) then None
                         else Some (True, upd_proc p (\<lambda>proc. proc\<lparr> runningState := PS_WAITING \<rparr>) w3)
                     | PCT_CONTINUE \<Rightarrow>
                         if \<not> p < length (processes w3) then None
                         else Some (True, upd_proc p (\<lambda>proc. proc\<lparr> runningState := PS_RUNNING \<rparr>) w3)))"

text \<open>
  The inner loop of \<open>threadWorker\<close> (lines 190-203) on the process at index \<open>p\<close>, with the
  locals \<open>pushActorBack\<close> and \<open>msgCount\<close>; it returns \<open>pushActorBack\<close>.
\<close>

function batch_loop ::
  "handlers \<Rightarrow> nat \<Rightarrow> bool \<Rightarrow> u32 \<Rightarrow> ProcessQueue \<Rightarrow> (bool \<times> ProcessQueue) option" where
  "batch_loop H p pushActorBack msgCount w =
     (if \<not> p < length (processes w) then None
      else if msgCount < maxMessagePerCycle (processes w ! p) \<and> pushActorBack then
        (if runningState (processes w ! p) = PS_RUNNING then
           (case handleProcess H p NULL w of
              None \<Rightarrow> None
            | Some (b, w') \<Rightarrow> batch_loop H p b (msgCount + 1) w')
         else
           (case BoundedQueue_pop (get_inbox p w) of
              None \<Rightarrow> None
            | Some (msg, bq') \<Rightarrow>
                if msg \<noteq> NULL then
                  (case handleProcess H p msg (put_inbox p bq' w) of
                     None \<Rightarrow> None
                   | Some (b, w') \<Rightarrow> batch_loop H p b (msgCount + 1) w')
                else Some (pushActorBack, put_inbox p bq' w)))
      else Some (pushActorBack, w))"
  by pat_completeness auto
termination
proof (relation "measure (\<lambda>(H, p, b, msgCount, w). 2 ^ 32 - unat msgCount)")
  show "wf (measure (\<lambda>(H, p, b, msgCount, w). 2 ^ 32 - unat (msgCount :: u32)))"
    by simp
next
  fix H :: handlers and p pushActorBack and msgCount :: u32 and w x2 x y
  assume "msgCount < maxMessagePerCycle (processes w ! p) \<and> pushActorBack"
  then have "unat msgCount < unat (maxMessagePerCycle (processes w ! p))"
    by (simp add: word_less_nat_alt)
  moreover have "unat (maxMessagePerCycle (processes w ! p)) < 2 ^ 32"
    using unsigned_less [of "maxMessagePerCycle (processes w ! p)"] by simp
  ultimately have lt: "unat msgCount + unat (1 :: u32) < 2 ^ LENGTH(32)"
    by simp
  have "unat (msgCount + 1) = unat msgCount + unat (1 :: u32)"
    using lt by (simp only: unat_add_lem [THEN iffD1])
  moreover have "unat msgCount < 2 ^ 32"
    using lt by simp
  ultimately show "((H, p, x, msgCount + 1, y), H, p, pushActorBack, msgCount, w)
      \<in> measure (\<lambda>(H, p, b, msgCount, w). 2 ^ 32 - unat msgCount)"
    by simp
next
  fix H :: handlers and p pushActorBack and msgCount :: u32 and w x2 x y xa ya x2a xb yb
  assume "msgCount < maxMessagePerCycle (processes w ! p) \<and> pushActorBack"
  then have "unat msgCount < unat (maxMessagePerCycle (processes w ! p))"
    by (simp add: word_less_nat_alt)
  moreover have "unat (maxMessagePerCycle (processes w ! p)) < 2 ^ 32"
    using unsigned_less [of "maxMessagePerCycle (processes w ! p)"] by simp
  ultimately have lt: "unat msgCount + unat (1 :: u32) < 2 ^ LENGTH(32)"
    by simp
  have "unat (msgCount + 1) = unat msgCount + unat (1 :: u32)"
    using lt by (simp only: unat_add_lem [THEN iffD1])
  moreover have "unat msgCount < 2 ^ 32"
    using lt by simp
  ultimately show "((H, p, xb, msgCount + 1, yb), H, p, pushActorBack, msgCount, w)
      \<in> measure (\<lambda>(H, p, b, msgCount, w). 2 ^ 32 - unat msgCount)"
    by simp
qed

declare batch_loop.simps [simp del]

text \<open>
  \<open>while( BoundedQueue_push(&dq->runQueue, proc) == false ) pthread_yield();\<close>
  (lines 205-207 and 351-354).
\<close>

partial_function (option) runQueue_push_loop :: "nat \<Rightarrow> ProcessQueue \<Rightarrow> ProcessQueue option" where
  "runQueue_push_loop p w =
     (case BoundedQueue_push (runQueue w) (Addr p) of
        None \<Rightarrow> None
      | Some (ok, rq') \<Rightarrow>
          if ok then Some (put_runQueue rq' w)
          else runQueue_push_loop p (emit Yield (put_runQueue rq' w)))"

declare runQueue_push_loop.simps [code]

text \<open>
  One iteration of the outer loop of \<open>threadWorker\<close> (lines 184-211): a visit to the process
  popped from the run queue, or a yield when there is none.
\<close>

definition worker_visit :: "handlers \<Rightarrow> ProcessQueue \<Rightarrow> ProcessQueue option" where
  "worker_visit H w =
     (case BoundedQueue_pop (runQueue w) of
        None \<Rightarrow> None
      | Some (procp, rq') \<Rightarrow>
          (case procp of
             NULL \<Rightarrow> Some (emit Yield (put_runQueue rq' w))
           | Addr p \<Rightarrow>
               (case batch_loop H p True 0 (put_runQueue rq' w) of
                  None \<Rightarrow> None
                | Some (pushActorBack, w') \<Rightarrow>
                    if pushActorBack then runQueue_push_loop p w'
                    else Some (w'\<lparr> procCount := procCount w' - 1 \<rparr>))))"

partial_function (option) threadWorker :: "handlers \<Rightarrow> ProcessQueue \<Rightarrow> ProcessQueue option" where
  "threadWorker H w =
     (if qstate w = DQS_RUNNING then
        (case worker_visit H w of None \<Rightarrow> None | Some w' \<Rightarrow> threadWorker H w')
      else Some w)"

declare threadWorker.simps [code]

subsection \<open>ProcessQueue\_init and ProcessQueue\_release (lines 219-263)\<close>

text \<open>
  \<open>calloc\<close> zeroes the process array. Which enumerator of \<open>runningState\<close> is 0 is declared in
  \<open>internals.h\<close>; the field is read only after \<open>ProcessQueue_spawn\<close> has written it.
\<close>

definition zero_BoundedQueue :: BoundedQueue where
  "zero_BoundedQueue =
     \<lparr> cap = 0, elements = None, first = 0, lastq = 0, elementRelease = NoRelease \<rparr>"

definition zero_Process :: Process where
  "zero_Process =
     \<lparr> proc_id = 0, gen = 0, parent = NULL, processQueue = NULL, handler = NULL,
       releaseState = NULL, state = NULL, runningState = PS_RUNNING, maxMessagePerCycle = 0,
       messageQueue = zero_BoundedQueue, releaseLock = False \<rparr>"

text \<open>The loop of lines 231-235 pushes every slot onto \<open>procPool\<close>.\<close>

fun procPool_fill :: "nat list \<Rightarrow> BoundedQueue \<Rightarrow> BoundedQueue option" where
  "procPool_fill [] pool = Some pool"
| "procPool_fill (p # ps) pool =
     (case BoundedQueue_push pool (Addr p) of
        None \<Rightarrow> None
      | Some (_, pool') \<Rightarrow> procPool_fill ps pool')"

text \<open>
  \<open>a\<close> is the address \<open>calloc\<close> returns for the runtime. The worker threads that lines
  238-246 start run \<open>threadWorker\<close> concurrently; the sequential model keeps their number
  and runs worker visits as calls of their own.
\<close>

definition ProcessQueue_init :: "nat \<Rightarrow> u32 \<Rightarrow> u32 \<Rightarrow> ProcessQueue option" where
  "ProcessQueue_init a procCap nthreads =
     (case procPool_fill [0 ..< unat procCap] (BoundedQueue_init procCap NoRelease) of
        None \<Rightarrow> None
      | Some pool \<Rightarrow>
          Some \<lparr> addr = a, processCap = procCap, threadCount = nthreads,
                 processes = map (\<lambda>p. zero_Process\<lparr> proc_id := of_nat p, gen := 0 \<rparr>) [0 ..< unat procCap],
                 runQueue = BoundedQueue_init procCap ProcessRelease,
                 procPool = pool, procCount = 0, qstate = DQS_RUNNING,
                 currentProcess = NULL, trace = [] \<rparr>)"


subsection \<open>Process\_sendMessage (lines 265-307)\<close>

text \<open>
  The destination runtime is reached through the pointer \<open>dest.pq\<close>: \<open>mem\<close> says which
  addresses hold a runtime. Line 303 cannot be reached: both branches before it return.
\<close>

definition Process_sendMessage ::
  "(nat \<Rightarrow> ProcessQueue option) \<Rightarrow> PID \<Rightarrow> ptr \<Rightarrow> MessageAction
     \<Rightarrow> (SendResult \<times> (nat \<Rightarrow> ProcessQueue option)) option" where
  "Process_sendMessage mem dest message ma =
     (case pq dest of
        NULL \<Rightarrow> None
      | Addr a \<Rightarrow>
          (case mem a of
             None \<Rightarrow> None
           | Some w \<Rightarrow>
               let p = unat (pid_id dest)
               in if \<not> p < length (processes w) then None
                  else
                    (case spinTryLock (releaseLock (processes w ! p)) of (ok, lock') \<Rightarrow>
                       if ok then
                         let w1 = emit (LockAcquired p) (upd_proc p (\<lambda>proc. proc\<lparr> releaseLock := lock' \<rparr>) w)
                         in if pid_gen dest \<noteq> gen (processes w1 ! p) then
                              Some (ACTOR_IS_DEAD,
                                    mem(a \<mapsto> emit (LockReleased p)
                                      (upd_proc p (\<lambda>proc. proc\<lparr> releaseLock := spinUnlock (releaseLock proc) \<rparr>) w1)))
                            else
                              (case BoundedQueue_push (get_inbox p w1) message of
                                 None \<Rightarrow> None
                               | Some (pushed, bq') \<Rightarrow>
                                   let w2 = put_inbox p bq' w1
                                   in if pushed then Some (SEND_SUCCESS, mem(a \<mapsto> w2))
                                      else
                                        (case ma of
                                           MA_KEEP \<Rightarrow> Some (SEND_FAIL, mem(a \<mapsto> w2))
                                         | MA_REMOVE \<Rightarrow>
                                             map_option (\<lambda>w3. (SEND_FAIL, mem(a \<mapsto> w3)))
                                               (call_messageRelease (emit_under p) (elementRelease bq')
                                                  message w2)))
                       else Some (SEND_FAIL, mem(a \<mapsto> upd_proc p (\<lambda>proc. proc\<lparr> releaseLock := lock' \<rparr>) w)))))"

subsection \<open>Process\_receiveMessage, Process\_self, Process\_parent (lines 309-325)\<close>

definition Process_receiveMessage :: "ProcessQueue \<Rightarrow> (ptr \<times> ProcessQueue) option" where
  "Process_receiveMessage w =
     (case currentProcess w of
        NULL \<Rightarrow> None
      | Addr p \<Rightarrow>
          if \<not> p < length (processes w) then None
          else map_option (\<lambda>(msg, bq'). (msg, put_inbox p bq' w)) (BoundedQueue_pop (get_inbox p w)))"

definition Process_self :: "ProcessQueue \<Rightarrow> PID option" where
  "Process_self w =
     (case currentProcess w of
        NULL \<Rightarrow> None
      | Addr p \<Rightarrow>
          if \<not> p < length (processes w) then None
          else Some \<lparr> pq = Addr (addr w), pid_id = proc_id (processes w ! p),
                      pid_gen = gen (processes w ! p) \<rparr>)"

text \<open>
  \<open>Process_parent\<close> as the source has it declares a parameter \<open>PID proc\<close>, declares \<open>proc\<close>
  again as a local and uses \<open>dq\<close>, which it does not declare. The model is its body as the
  body of a function of the runtime \<open>dq\<close>, the signature of \<open>Process_self\<close>: the current
  process is read from the thread-specific key and its \<open>parent\<close> pointer is dereferenced.
\<close>

definition Process_parent :: "ProcessQueue \<Rightarrow> PID option" where
  "Process_parent w =
     (case currentProcess w of
        NULL \<Rightarrow> None
      | Addr p \<Rightarrow>
          if \<not> p < length (processes w) then None
          else
            (case parent (processes w ! p) of
               NULL \<Rightarrow> None
             | Addr q \<Rightarrow>
                 if \<not> q < length (processes w) then None
                 else Some \<lparr> pq = Addr (addr w), pid_id = proc_id (processes w ! q),
                             pid_gen = gen (processes w ! q) \<rparr>))"

subsection \<open>ProcessQueue\_spawn (lines 328-366)\<close>

text \<open>
  \<open>while( (proc = BoundedQueue_pop(&dq->procPool)) == NULL ) pthread_yield();\<close>
\<close>

partial_function (option) procPool_pop_loop :: "ProcessQueue \<Rightarrow> (nat \<times> ProcessQueue) option" where
  "procPool_pop_loop w =
     (case BoundedQueue_pop (procPool w) of
        None \<Rightarrow> None
      | Some (procp, pool') \<Rightarrow>
          (case procp of
             NULL \<Rightarrow> procPool_pop_loop (emit Yield (w\<lparr> procPool := pool' \<rparr>))
           | Addr p \<Rightarrow> Some (p, w\<lparr> procPool := pool' \<rparr>)))"

declare procPool_pop_loop.simps [code]

definition null_PID :: PID where
  "null_PID = \<lparr> pq = NULL, pid_id = 0, pid_gen = 0 \<rparr>"

definition ProcessQueue_spawn :: "ProcessQueue \<Rightarrow> ProcessSpawnParameters \<Rightarrow> (PID \<times> ProcessQueue) option" where
  "ProcessQueue_spawn w parameters =
     (let count = procCount w;
          w1 = w\<lparr> procCount := procCount w + 1 \<rparr>
      in if count < processCap w1 then
           (case procPool_pop_loop w1 of
              None \<Rightarrow> None
            | Some (p, w2) \<Rightarrow>
                if \<not> p < length (processes w2) then None
                else
                  let w3 = upd_proc p (\<lambda>proc. proc\<lparr>
                               releaseLock := False,
                               parent := currentProcess w2,
                               processQueue := Addr (addr w2),
                               handler := p_handler parameters,
                               releaseState := p_releaseState parameters,
                               state := initialState parameters,
                               runningState := PS_RUNNING,
                               maxMessagePerCycle :=
                                 (if messageCap parameters > p_maxMessagePerCycle parameters
                                  then p_maxMessagePerCycle parameters else messageCap parameters),
                               messageQueue :=
                                 BoundedQueue_init (messageCap parameters) (messageRelease parameters) \<rparr>) w2
                  in map_option
                       (\<lambda>w4. (\<lparr> pq = Addr (addr w4), pid_id = proc_id (processes w4 ! p),
                                 pid_gen = gen (processes w4 ! p) \<rparr>, w4))
                       (runQueue_push_loop p w3))
         else
           let w2 = w1\<lparr> procCount := procCount w1 - 1 \<rparr>;
               w3 = (if p_releaseState parameters \<noteq> NULL
                     then emit (CallReleaseState (p_releaseState parameters) (initialState parameters)) w2
                     else w2)
           in Some (null_PID, w3))"

subsection \<open>Predicates of the statements\<close>

text \<open>
  Releasing the inbox of slot \<open>p\<close> under its lock changes that inbox and appends calls of
  the message release function, made under the lock, to the trace, and nothing else.
\<close>

definition inbox_frame :: "nat \<Rightarrow> ProcessQueue \<Rightarrow> ProcessQueue \<Rightarrow> bool" where
  "inbox_frame p w w' \<longleftrightarrow>
     (\<exists>bq ms. w' = put_inbox p bq (w\<lparr> trace := trace w @ map (Under p) ms \<rparr>)
        \<and> (\<forall>e \<in> set ms. \<exists>f x. e = CallElementRelease f x))"

text \<open>
  The number of handler calls in a trace; whether a handler has returned \<open>PCT_STOP\<close>; the
  events after the first such return; and the \<open>runningState\<close> that the return codes of a
  trace leave, from the state \<open>rs\<close> before.
\<close>

fun is_handler_call :: "event \<Rightarrow> bool" where
  "is_handler_call (CallHandler f st msg pct) = True"
| "is_handler_call _ = False"

definition handler_calls :: "event list \<Rightarrow> nat" where
  "handler_calls t = length (filter is_handler_call t)"

fun is_stop :: "event \<Rightarrow> bool" where
  "is_stop (CallHandler f st msg pct) = (pct = PCT_STOP)"
| "is_stop _ = False"

definition stop_seen :: "event list \<Rightarrow> bool" where
  "stop_seen t = list_ex is_stop t"

fun run_state :: "RunningState \<Rightarrow> event list \<Rightarrow> RunningState" where
  "run_state rs [] = rs"
| "run_state rs (CallHandler f st msg pct # t) =
     run_state (case pct of PCT_CONTINUE \<Rightarrow> PS_RUNNING | PCT_WAIT_MESSAGE \<Rightarrow> PS_WAITING
                | PCT_STOP \<Rightarrow> rs) t"
| "run_state rs (e # t) = run_state rs t"


text \<open>
  The trace of a retirement of slot \<open>p\<close>: the lock taken; then, each under the lock,
  \<open>gen\<close> incremented, the events \<open>rs\<close> (the call of \<open>releaseState\<close>, if there is one), the
  calls \<open>ms\<close> of the message release function, the inbox freed, the slot pushed onto
  \<open>procPool\<close>; then the lock released.
\<close>

definition retirement :: "nat \<Rightarrow> event list \<Rightarrow> event list \<Rightarrow> event list" where
  "retirement p rs ms =
     [LockAcquired p] @ map (Under p) ([GenIncremented p] @ rs @ ms @ [InboxFreed p, PoolPush p])
       @ [LockReleased p]"


text \<open>
  A cursor position \<open>L\<close> at which the index \<open>L % cap\<close> is still \<open>L mod cap\<close>: the 32-bit
  cursor has not wrapped around, or the capacity divides \<open>2^32\<close>.
\<close>

definition cursor_ok :: "BoundedQueue \<Rightarrow> nat \<Rightarrow> bool" where
  "cursor_ok bq L \<longleftrightarrow> unat (cap bq) dvd 2 ^ 32 \<or> L < 2 ^ 32"

text \<open>
  The runtime as a worker finds it while it visits the process in slot \<open>p\<close>, which it has
  popped from \<open>runQueue\<close>. The slot is in use: it has a handler and points back to the
  runtime. Its inbox is a well-formed ring with a release function of the user's, or none.
  \<open>procPool\<close> is a well-formed ring of slots, \<open>p\<close> not among them, so it has room for \<open>p\<close>.
  \<open>runQueue\<close> is a well-formed ring that holds fewer processes than \<open>procCount\<close> counts,
  \<open>p\<close> being visited, and its cursor leaves room for the processes that can still be
  spawned.
\<close>

definition inbox_ok :: "nat \<Rightarrow> ProcessQueue \<Rightarrow> bool" where
  "inbox_ok p w \<longleftrightarrow>
     elementRelease (get_inbox p w) \<noteq> ProcessRelease
     \<and> (\<exists>F xs. ring_inv F xs (get_inbox p w) \<and> cursor_ok (get_inbox p w) (F + length xs))"

definition pool_ok :: "nat \<Rightarrow> ProcessQueue \<Rightarrow> bool" where
  "pool_ok p w \<longleftrightarrow>
     (\<exists>F xs. ring_inv F xs (procPool w) \<and> cursor_ok (procPool w) (F + length xs)
        \<and> length xs < unat (cap (procPool w)) \<and> Addr p \<notin> set xs \<and> NULL \<notin> set xs)"

definition runQueue_ok :: "ProcessQueue \<Rightarrow> bool" where
  "runQueue_ok w \<longleftrightarrow>
     cap (runQueue w) = processCap w \<and> unat (procCount w) \<le> unat (processCap w)
     \<and> (\<exists>F xs. ring_inv F xs (runQueue w) \<and> length xs < unat (procCount w)
          \<and> cursor_ok (runQueue w)
               (F + length xs + (unat (processCap w) - unat (procCount w))))"

definition visit_inv :: "nat \<Rightarrow> ProcessQueue \<Rightarrow> bool" where
  "visit_inv p w \<longleftrightarrow>
     p < length (processes w) \<and> handler (processes w ! p) \<noteq> NULL
     \<and> processQueue (processes w ! p) = Addr (addr w)
     \<and> inbox_ok p w \<and> pool_ok p w \<and> runQueue_ok w"


text \<open>
  Every slot carries its index as \<open>id\<close>: \<open>ProcessQueue_init\<close> writes it, and nothing writes
  \<open>id\<close> afterwards.
\<close>

definition ids_ok :: "ProcessQueue \<Rightarrow> bool" where
  "ids_ok w \<longleftrightarrow> map (\<lambda>proc. unat (proc_id proc)) (processes w) = [0 ..< length (processes w)]"



subsection \<open>A small runtime for concrete runs\<close>

text \<open>
  Spawn parameters with every callback set and an inbox of four messages, and a handler
  that waits for messages and stops on the message at address 99.
\<close>

definition example_parameters :: ProcessSpawnParameters where
  "example_parameters =
     \<lparr> p_handler = Addr 7, initialState = Addr 1000, p_releaseState = Addr 8,
       messageRelease = UserRelease 9, messageCap = 4, p_maxMessagePerCycle = 3 \<rparr>"




text \<open>
  The runtime at address 100 with two slots; the same after one spawn from outside a
  handler, with the PID returned; after the retirement of that process; after a send of
  the message at address 55 to it instead, or of the message at address 99; and after a
  second spawn instead, when the runtime is at capacity.
\<close>

definition example_runtime :: ProcessQueue where
  "example_runtime = the (ProcessQueue_init 100 2 0)"

definition example_spawn :: "PID \<times> ProcessQueue" where
  "example_spawn = the (ProcessQueue_spawn example_runtime example_parameters)"

definition example_retired :: ProcessQueue where
  "example_retired = the (processRelease (Addr 0) (snd example_spawn))"

definition example_sent :: ProcessQueue where
  "example_sent =
     the (snd (the (Process_sendMessage [100 \<mapsto> snd example_spawn] (fst example_spawn) (Addr 55) MA_KEEP)) 100)"


definition example_full :: ProcessQueue where
  "example_full = snd (the (ProcessQueue_spawn (snd example_spawn) example_parameters))"









section \<open>Verification\<close>

subsection \<open>Word arithmetic of the cursors\<close>

lemma int32_diff_eq: "int32_diff a b = sint (a - b)"
  by (simp add: int32_diff_def sint_word_diff)

lemma int32_diff_of_nat:
  assumes "- (2 ^ 31) \<le> int a - int b" "int a - int b < 2 ^ 31"
  shows "int32_diff (of_nat a) (of_nat b) = int a - int b"
proof -
  have "(of_nat a :: u32) - of_nat b = word_of_int (int a - int b)"
    by simp
  then have "sint ((of_nat a :: u32) - of_nat b) = signed_take_bit 31 (int a - int b)"
    by (simp only: sint_sbintrunc') simp
  also have "\<dots> = int a - int b"
    using assms by (simp add: signed_take_bit_int_eq_self)
  finally show ?thesis by (simp add: int32_diff_eq)
qed

text \<open>
  The index \<open>pos % cap\<close> of the position \<open>k\<close> is \<open>k mod cap\<close> as long as the 32-bit cursor
  has not wrapped around, and for ever when the capacity divides \<open>2^32\<close>.
\<close>

lemma idx32:
  assumes "unat c dvd 2 ^ 32 \<or> k < 2 ^ 32"
  shows "unat ((of_nat k :: u32) mod c) = k mod unat c"
proof -
  have "unat ((of_nat k :: u32) mod c) = (k mod 2 ^ 32) mod unat c"
    by (simp add: unat_mod unat_of_nat)
  also have "\<dots> = k mod unat c"
    using assms by (auto simp: mod_mod_cancel)
  finally show ?thesis .
qed

lemma mod_inj_window:
  fixes k k' :: nat
  assumes "F \<le> k" "k < F + c" "F \<le> k'" "k' < F + c" "k mod c = k' mod c"
  shows "k = k'"
proof (rule ccontr)
  assume ne: "k \<noteq> k'"
  have *: "\<And>a b :: nat. a < b \<Longrightarrow> b < a + c \<Longrightarrow> a mod c = b mod c \<Longrightarrow> False"
  proof -
    fix a b :: nat assume "a < b" "b < a + c" "a mod c = b mod c"
    then have "(b - a) mod c = 0" by (metis less_imp_le_nat mod_eq_dvd_iff_nat dvd_imp_mod_0)
    moreover have "0 < b - a" "b - a < c" using \<open>a < b\<close> \<open>b < a + c\<close> by auto
    ultimately show False by simp
  qed
  from ne consider "k < k'" | "k' < k" by linarith
  then show False
  proof cases
    case 1 then show ?thesis using *[of k k'] assms by auto
  next
    case 2 then show ?thesis using *[of k' k] assms by auto
  qed
qed

subsection \<open>One iteration decides a sequential push or pop\<close>

lemma push_free:
  assumes "slot_at bq (lastq bq) = Some (els, i, el)" "int32_diff (seq el) (lastq bq) = 0"
  shows "BoundedQueue_push bq d =
           Some (True, bq\<lparr> lastq := lastq bq + 1,
                           elements := Some (els[i := \<lparr> seq = lastq bq + 1, data = d \<rparr>]) \<rparr>)"
  using assms
  by (simp add: BoundedQueue_push_def push_loop.simps [of bq d "lastq bq"] atomic_compare_exchange_def)

lemma push_full:
  assumes "slot_at bq (lastq bq) = Some (els, i, el)" "int32_diff (seq el) (lastq bq) < 0"
  shows "BoundedQueue_push bq d = Some (False, bq)"
  using assms
  by (simp add: BoundedQueue_push_def push_loop.simps [of bq d "lastq bq"])

lemma pop_filled:
  assumes "slot_at bq (first bq) = Some (els, i, el)" "int32_diff (seq el) (first bq + 1) = 0"
  shows "BoundedQueue_pop bq =
           Some (data el, bq\<lparr> first := first bq + 1,
                              elements := Some (els[i := el\<lparr> seq := first bq + cap bq \<rparr>]) \<rparr>)"
  using assms
  by (simp add: BoundedQueue_pop_def pop_loop.simps [of bq "first bq"] atomic_compare_exchange_def)

lemma pop_empty:
  assumes "slot_at bq (first bq) = Some (els, i, el)" "int32_diff (seq el) (first bq + 1) < 0"
  shows "BoundedQueue_pop bq = Some (NULL, bq)"
  using assms
  by (simp add: BoundedQueue_pop_def pop_loop.simps [of bq "first bq"])

text \<open>
  A push that finds a positive difference reads \<open>last\<close> again and, with no other thread to
  change the slot, finds the same difference: it never returns.
\<close>

lemma push_spin:
  assumes slot: "slot_at bq (lastq bq) = Some (els, i, el)"
    and diff: "0 < int32_diff (seq el) (lastq bq)"
  shows "BoundedQueue_push bq d = None"
proof (rule ccontr)
  assume "BoundedQueue_push bq d \<noteq> None"
  then obtain y where y: "push_loop bq d (lastq bq) = Some y"
    by (auto simp: BoundedQueue_push_def)
  have "\<not> (b = bq \<and> l = lastq bq)" if "push_loop b d' l = Some y'" for b d' l y'
    using that
  proof (rule push_loop.raw_induct [where P = "\<lambda>b d' l y'. \<not> (b = bq \<and> l = lastq bq)", rotated])
    fix pl b d' l y'
    assume IH: "\<And>b d' l y'. pl b d' l = Some y' \<Longrightarrow> \<not> (b = bq \<and> l = lastq bq)"
      and step: "(case slot_at b l of None \<Rightarrow> None
           | Some (els, i, el) \<Rightarrow>
               let diff = int32_diff (seq el) l
               in (case (if diff = 0 then atomic_compare_exchange (lastq b) l (l + 1)
                         else (False, lastq b, l)) of
                     (ok, l', _) \<Rightarrow>
                       if ok then
                         Some (True, b\<lparr> lastq := l',
                                        elements := Some (els[i := \<lparr> seq = l + 1, data = d' \<rparr>]) \<rparr>)
                       else if diff < 0 then Some (False, b\<lparr> lastq := l' \<rparr>)
                       else pl (b\<lparr> lastq := l' \<rparr>) d' l')) = Some y'"
    show "\<not> (b = bq \<and> l = lastq bq)"
    proof
      assume eq: "b = bq \<and> l = lastq bq"
      with step slot diff have "pl (bq\<lparr> lastq := lastq bq \<rparr>) d' (lastq bq) = Some y'"
        by (simp add: Let_def)
      then have "pl bq d' (lastq bq) = Some y'" by simp
      from IH [OF this] show False by simp
    qed
  qed
  from this [OF y] show False by simp
qed
lemma pop_spin:
  assumes slot: "slot_at bq (first bq) = Some (els, i, el)"
    and diff: "0 < int32_diff (seq el) (first bq + 1)"
  shows "BoundedQueue_pop bq = None"
proof (rule ccontr)
  assume "BoundedQueue_pop bq \<noteq> None"
  then obtain y where y: "pop_loop bq (first bq) = Some y"
    by (auto simp: BoundedQueue_pop_def)
  have "\<not> (b = bq \<and> l = first bq)" if "pop_loop b l = Some y'" for b l y'
    using that
  proof (rule pop_loop.raw_induct [where P = "\<lambda>b l y'. \<not> (b = bq \<and> l = first bq)", rotated])
    fix pl b l y'
    assume IH: "\<And>b l y'. pl b l = Some y' \<Longrightarrow> \<not> (b = bq \<and> l = first bq)"
      and step: "(case slot_at b l of None \<Rightarrow> None
           | Some (els, i, el) \<Rightarrow>
               let diff = int32_diff (seq el) (l + 1)
               in (case (if diff = 0 then atomic_compare_exchange (first b) l (l + 1)
                         else (False, first b, l)) of
                     (ok, f', _) \<Rightarrow>
                       if ok then
                         Some (data el, b\<lparr> first := f',
                                            elements := Some (els[i := el\<lparr> seq := l + cap b \<rparr>]) \<rparr>)
                       else if diff < 0 then Some (NULL, b\<lparr> first := f' \<rparr>)
                       else pl (b\<lparr> first := f' \<rparr>) f')) = Some y'"
    show "\<not> (b = bq \<and> l = first bq)"
    proof
      assume eq: "b = bq \<and> l = first bq"
      with step slot diff have "pl (bq\<lparr> first := first bq \<rparr>) (first bq) = Some y'"
        by (simp add: Let_def)
      then have "pl bq (first bq) = Some y'" by simp
      from IH [OF this] show False by simp
    qed
  qed
  from this [OF y] show False by simp
qed

subsection \<open>The ring invariant is kept\<close>

lemma ring_slot:
  assumes "ring_inv F xs bq" "elements bq = Some els" "unat (cap bq) dvd 2 ^ 32 \<or> k < 2 ^ 32"
  shows "slot_at bq (of_nat k) = Some (els, k mod unat (cap bq), els ! (k mod unat (cap bq)))"
proof -
  have c: "2 \<le> unat (cap bq)" "length els = unat (cap bq)"
    using assms(1,2) by (auto simp: ring_inv_def)
  then have "cap bq \<noteq> 0" by (auto simp: unat_eq_0)
  moreover have "k mod unat (cap bq) < length els" using c by simp
  ultimately show ?thesis
    using assms(2) idx32 [OF assms(3)] by (simp add: slot_at_def Let_def)
qed

lemma ring_push_ok:
  assumes inv: "ring_inv F xs bq" and room: "length xs < unat (cap bq)"
    and pos: "unat (cap bq) dvd 2 ^ 32 \<or> F + length xs < 2 ^ 32"
  shows "\<exists>bq'. BoundedQueue_push bq d = Some (True, bq') \<and> ring_inv F (xs @ [d]) bq'
           \<and> cap bq' = cap bq \<and> elementRelease bq' = elementRelease bq"
proof -
  define c where "c = unat (cap bq)"
  define L where "L = F + length xs"
  from inv obtain els where els: "elements bq = Some els" "length els = c" "2 \<le> c"
    "first bq = of_nat F" "lastq bq = of_nat L"
    and slots: "\<And>k. F \<le> k \<Longrightarrow> k < F + c \<Longrightarrow>
          (if k < L then els ! (k mod c) = \<lparr> seq = of_nat (k + 1), data = xs ! (k - F) \<rparr>
           else seq (els ! (k mod c)) = of_nat k)"
    unfolding ring_inv_def c_def L_def by blast
  have Lw: "F \<le> L" "L < F + c" using room by (auto simp: L_def c_def)
  have slot: "slot_at bq (lastq bq) = Some (els, L mod c, els ! (L mod c))"
    using ring_slot [OF inv els(1), of L] pos els(5) by (simp add: c_def L_def)
  have "seq (els ! (L mod c)) = of_nat L" using slots [of L] Lw by simp
  then have diff: "int32_diff (seq (els ! (L mod c))) (lastq bq) = 0"
    using els(5) by (simp add: int32_diff_of_nat)
  define bq' where "bq' = bq\<lparr> lastq := lastq bq + 1,
       elements := Some (els[L mod c := \<lparr> seq = lastq bq + 1, data = d \<rparr>]) \<rparr>"
  have push: "BoundedQueue_push bq d = Some (True, bq')"
    unfolding bq'_def by (rule push_free [OF slot diff])
  have idx: "L mod c < length els" using els by simp
  have "ring_inv F (xs @ [d]) bq'"
    unfolding ring_inv_def
  proof (intro exI conjI allI impI)
    show "elements bq' = Some (els[L mod c := \<lparr> seq = lastq bq + 1, data = d \<rparr>])"
      by (simp add: bq'_def)
    show "length (els[L mod c := \<lparr> seq = lastq bq + 1, data = d \<rparr>]) = unat (cap bq')"
      using els by (simp add: bq'_def c_def)
    show "2 \<le> unat (cap bq')" using els by (simp add: bq'_def c_def)
    show "length (xs @ [d]) \<le> unat (cap bq')" using room by (simp add: bq'_def)
    show "first bq' = of_nat F" using els by (simp add: bq'_def)
    show "lastq bq' = of_nat (F + length (xs @ [d]))" using els by (simp add: bq'_def L_def)
  next
    fix k assume "F \<le> k \<and> k < F + unat (cap bq')"
    then have k: "F \<le> k" "k < F + c" by (auto simp: bq'_def c_def)
    show "if k < F + length (xs @ [d])
          then els[L mod c := \<lparr> seq = lastq bq + 1, data = d \<rparr>] ! (k mod unat (cap bq'))
               = \<lparr> seq = of_nat (k + 1), data = (xs @ [d]) ! (k - F) \<rparr>
          else seq (els[L mod c := \<lparr> seq = lastq bq + 1, data = d \<rparr>] ! (k mod unat (cap bq')))
               = of_nat k"
    proof (cases "k = L")
      case True
      then show ?thesis using idx els(5) by (simp add: bq'_def c_def [symmetric] L_def)
    next
      case False
      then have "k mod c \<noteq> L mod c" using mod_inj_window [of F k c L] k Lw by auto
      then show ?thesis using slots [OF k] False k
        by (auto simp: bq'_def c_def [symmetric] L_def nth_append)
    qed
  qed
  then show ?thesis using push by (auto simp: bq'_def)
qed

lemma ring_push_full:
  assumes inv: "ring_inv F xs bq" and full: "length xs = unat (cap bq)"
    and pos: "unat (cap bq) dvd 2 ^ 32 \<or> F + length xs < 2 ^ 32"
    and small: "unat (cap bq) \<le> 2 ^ 31 + 1"
  shows "BoundedQueue_push bq d = Some (False, bq)"
proof -
  define c where "c = unat (cap bq)"
  define L where "L = F + length xs"
  from inv obtain els where els: "elements bq = Some els" "length els = c" "2 \<le> c"
    "first bq = of_nat F" "lastq bq = of_nat L"
    and slots: "\<And>k. F \<le> k \<Longrightarrow> k < F + c \<Longrightarrow>
          (if k < L then els ! (k mod c) = \<lparr> seq = of_nat (k + 1), data = xs ! (k - F) \<rparr>
           else seq (els ! (k mod c)) = of_nat k)"
    unfolding ring_inv_def c_def L_def by blast
  have L: "L = F + c" using full by (auto simp: L_def c_def)
  have "L mod c = F mod c" using L by simp
  have slotL: "slot_at bq (lastq bq) = Some (els, F mod c, els ! (F mod c))"
    using ring_slot [OF inv els(1), of L] pos \<open>L mod c = F mod c\<close> els(5) by (simp add: c_def L_def)
  have "seq (els ! (F mod c)) = of_nat (F + 1)" using slots [of F] L els(3) by simp
  moreover have cs: "c \<le> 2 ^ 31 + 1" using small by (simp add: c_def)
  have "int32_diff (of_nat (F + 1)) (of_nat L) = int (F + 1) - int L"
    by (rule int32_diff_of_nat) (use L els(3) cs in simp_all)
  ultimately have diff: "int32_diff (seq (els ! (F mod c))) (lastq bq) < 0"
    using L els(3,5) by simp
  show ?thesis
    by (rule push_full [OF slotL diff])
qed

lemma ring_pop_ok:
  assumes inv: "ring_inv F (x # xs) bq"
    and pos: "unat (cap bq) dvd 2 ^ 32 \<or> F < 2 ^ 32"
  shows "\<exists>bq'. BoundedQueue_pop bq = Some (x, bq') \<and> ring_inv (Suc F) xs bq' \<and> cap bq' = cap bq
           \<and> elementRelease bq' = elementRelease bq"
proof -
  define c where "c = unat (cap bq)"
  define L where "L = F + length (x # xs)"
  from inv obtain els where els: "elements bq = Some els" "length els = c" "2 \<le> c"
    "first bq = of_nat F" "lastq bq = of_nat L" "length (x # xs) \<le> c"
    and slots: "\<And>k. F \<le> k \<Longrightarrow> k < F + c \<Longrightarrow>
          (if k < L then els ! (k mod c) = \<lparr> seq = of_nat (k + 1), data = (x # xs) ! (k - F) \<rparr>
           else seq (els ! (k mod c)) = of_nat k)"
    unfolding ring_inv_def c_def L_def by blast
  have Fw: "F < L" "F < F + c" "L \<le> F + c"
    using els(3,6) by (auto simp: L_def c_def)
  have slot: "slot_at bq (first bq) = Some (els, F mod c, els ! (F mod c))"
    using ring_slot [OF inv els(1), of F] pos els(4) by (simp add: c_def)
  have el: "els ! (F mod c) = \<lparr> seq = of_nat (F + 1), data = x \<rparr>"
    using slots [of F] Fw by simp
  have f1: "first bq + 1 = of_nat (F + 1)" using els(4) by simp
  have diff: "int32_diff (seq (els ! (F mod c))) (first bq + 1) = 0"
    unfolding f1 el by (simp add: int32_diff_of_nat del: of_nat_add of_nat_Suc)
  define els' where "els' = els[F mod c := (els ! (F mod c))\<lparr> seq := first bq + cap bq \<rparr>]"
  define bq' where "bq' = bq\<lparr> first := first bq + 1, elements := Some els' \<rparr>"
  have pop: "BoundedQueue_pop bq = Some (x, bq')"
    using pop_filled [OF slot diff] el by (simp add: bq'_def els'_def)
  have idx: "F mod c < length els" using els by simp
  have fc: "first bq + cap bq = of_nat (F + c)" using els(4) by (simp add: c_def)
  have "ring_inv (Suc F) xs bq'"
    unfolding ring_inv_def
  proof (intro exI conjI allI impI)
    show "elements bq' = Some els'" by (simp add: bq'_def)
    show "length els' = unat (cap bq')" using els by (simp add: bq'_def els'_def c_def)
    show "2 \<le> unat (cap bq')" using els by (simp add: bq'_def c_def)
    show "length xs \<le> unat (cap bq')" using els(6) by (simp add: bq'_def c_def)
    show "first bq' = of_nat (Suc F)" using els by (simp add: bq'_def)
    show "lastq bq' = of_nat (Suc F + length xs)" using els by (simp add: bq'_def L_def)
  next
    fix k assume "Suc F \<le> k \<and> k < Suc F + unat (cap bq')"
    then have k: "Suc F \<le> k" "k \<le> F + c" by (auto simp: bq'_def c_def)
    show "if k < Suc F + length xs
          then els' ! (k mod unat (cap bq')) = \<lparr> seq = of_nat (k + 1), data = xs ! (k - Suc F) \<rparr>
          else seq (els' ! (k mod unat (cap bq'))) = of_nat k"
    proof (cases "k = F + c")
      case True
      then have "k mod c = F mod c" by simp
      moreover have "\<not> k < Suc F + length xs" using True Fw(3) by (simp add: L_def)
      ultimately show ?thesis using idx fc True
        by (simp add: bq'_def els'_def c_def [symmetric] del: of_nat_add)
    next
      case False
      then have kw: "F \<le> k" "k < F + c" using k by auto
      have "k mod c \<noteq> F mod c" using mod_inj_window [of F k c F] kw k(1) els(3) by auto
      moreover have "k - F = Suc (k - Suc F)" using k(1) by simp
      then have "(x # xs) ! (k - F) = xs ! (k - Suc F)" by (simp only: nth_Cons_Suc)
      ultimately show ?thesis using slots [OF kw] k
        by (auto simp: bq'_def els'_def c_def [symmetric] L_def)
    qed
  qed
  then show ?thesis using pop by (auto simp: bq'_def)
qed

lemma ring_pop_empty:
  assumes inv: "ring_inv F [] bq" and pos: "unat (cap bq) dvd 2 ^ 32 \<or> F < 2 ^ 32"
  shows "BoundedQueue_pop bq = Some (NULL, bq)"
proof -
  define c where "c = unat (cap bq)"
  from inv obtain els where els: "elements bq = Some els" "length els = c" "2 \<le> c"
    "first bq = of_nat F"
    and slots: "\<And>k. F \<le> k \<Longrightarrow> k < F + c \<Longrightarrow> seq (els ! (k mod c)) = of_nat k"
    unfolding ring_inv_def c_def by auto
  have slot: "slot_at bq (first bq) = Some (els, F mod c, els ! (F mod c))"
    using ring_slot [OF inv els(1), of F] pos els(4) by (simp add: c_def)
  have f1: "first bq + 1 = of_nat (F + 1)" using els(4) by simp
  have "seq (els ! (F mod c)) = of_nat F" using slots [of F] els(3) by simp
  moreover have "int32_diff (of_nat F) (of_nat (F + 1)) = int F - int (F + 1)"
    by (rule int32_diff_of_nat) simp_all
  ultimately have diff: "int32_diff (seq (els ! (F mod c))) (first bq + 1) < 0"
    unfolding f1 by simp
  show ?thesis by (rule pop_empty [OF slot diff])
qed

lemma ring_init:
  assumes "2 \<le> unat c"
  shows "ring_inv 0 [] (BoundedQueue_init c er)"
  using assms by (auto simp: ring_inv_def BoundedQueue_init_def)

lemma ring_stored:
  assumes inv: "ring_inv F xs bq" and pos: "unat (cap bq) dvd 2 ^ 32 \<or> F + length xs \<le> 2 ^ 32"
  shows "stored bq = xs"
proof -
  define c where "c = unat (cap bq)"
  from inv obtain els where els: "elements bq = Some els" "length xs \<le> c"
    "first bq = of_nat F" "lastq bq = of_nat (F + length xs)"
    and slots: "\<And>k. F \<le> k \<Longrightarrow> k < F + length xs \<Longrightarrow> data (els ! (k mod c)) = xs ! (k - F)"
    unfolding ring_inv_def c_def by fastforce
  have "c < 2 ^ 32" using unsigned_less [of "cap bq"] by (simp add: c_def)
  then have n: "unat (lastq bq - first bq) = length xs"
    using els(2) by (simp add: els(3,4) unat_of_nat)
  have i: "unat ((first bq + of_nat j) mod cap bq) = (F + j) mod c" if "j < length xs" for j
  proof -
    have "first bq + of_nat j = of_nat (F + j)" by (simp add: els(3))
    moreover have "unat (cap bq) dvd 2 ^ 32 \<or> F + j < 2 ^ 32" using pos that by auto
    ultimately show ?thesis using idx32 [of "cap bq" "F + j"] by (simp add: c_def)
  qed
  have "stored bq = map (\<lambda>j. data (els ! unat ((first bq + of_nat j) mod cap bq))) [0 ..< length xs]"
    by (simp add: stored_def els(1) n)
  also have "\<dots> = xs"
    by (rule nth_equalityI) (simp_all add: i slots)
  finally show ?thesis .
qed
lemma run_ops_refines:
  assumes "ring_inv F xs bq" "unat (cap bq) \<le> 2 ^ 31 + 1"
    "unat (cap bq) dvd 2 ^ 32 \<or> F + length xs + pushes ops < 2 ^ 32"
  shows "\<exists>bq' F'. run_ops bq ops = Some (fst (fifo_run (unat (cap bq)) xs ops), bq')
           \<and> ring_inv F' (snd (fifo_run (unat (cap bq)) xs ops)) bq' \<and> cap bq' = cap bq
           \<and> F' + length (snd (fifo_run (unat (cap bq)) xs ops))
               = F + length xs + count_list (fst (fifo_run (unat (cap bq)) xs ops)) (Pushed True)
           \<and> count_list (fst (fifo_run (unat (cap bq)) xs ops)) (Pushed True) \<le> pushes ops"
  using assms
proof (induction ops arbitrary: F xs bq)
  case Nil
  then show ?case by auto
next
  case (Cons a ops)
  show ?case
  proof (cases a)
    case (Push d)
    show ?thesis
    proof (cases "length xs = unat (cap bq)")
      case True
      have p: "BoundedQueue_push bq d = Some (False, bq)"
        by (rule ring_push_full [OF Cons.prems(1) True _ Cons.prems(2)])
           (use Cons.prems(3) Push in auto)
      from Cons.IH [OF Cons.prems(1,2)] Cons.prems(3) Push
      obtain bq' F' where "run_ops bq ops = Some (fst (fifo_run (unat (cap bq)) xs ops), bq')"
        "ring_inv F' (snd (fifo_run (unat (cap bq)) xs ops)) bq'" "cap bq' = cap bq"
        "F' + length (snd (fifo_run (unat (cap bq)) xs ops))
           = F + length xs + count_list (fst (fifo_run (unat (cap bq)) xs ops)) (Pushed True)"
        "count_list (fst (fifo_run (unat (cap bq)) xs ops)) (Pushed True) \<le> pushes ops"
        by auto
      then show ?thesis using p Push True
        by (auto simp: split_beta intro!: exI [of _ F'])
    next
      case False
      then have room: "length xs < unat (cap bq)"
        using Cons.prems(1) by (auto simp: ring_inv_def)
      have "unat (cap bq) dvd 2 ^ 32 \<or> F + length xs < 2 ^ 32"
        using Cons.prems(3) Push by auto
      from ring_push_ok [OF Cons.prems(1) room this, of d]
      obtain bq1 where p: "BoundedQueue_push bq d = Some (True, bq1)"
        "ring_inv F (xs @ [d]) bq1" "cap bq1 = cap bq" by auto
      from Cons.IH [OF p(2)] Cons.prems(2,3) p(3) Push
      obtain bq' F' where "run_ops bq1 ops = Some (fst (fifo_run (unat (cap bq)) (xs @ [d]) ops), bq')"
        "ring_inv F' (snd (fifo_run (unat (cap bq)) (xs @ [d]) ops)) bq'" "cap bq' = cap bq"
        "F' + length (snd (fifo_run (unat (cap bq)) (xs @ [d]) ops))
           = F + length (xs @ [d]) + count_list (fst (fifo_run (unat (cap bq)) (xs @ [d]) ops)) (Pushed True)"
        "count_list (fst (fifo_run (unat (cap bq)) (xs @ [d]) ops)) (Pushed True) \<le> pushes ops"
        by auto
      then show ?thesis using p Push False
        by (auto simp: split_beta intro!: exI [of _ F'])
    qed
  next
    case Pop
    have pos: "unat (cap bq) dvd 2 ^ 32 \<or> F < 2 ^ 32"
      using Cons.prems(3) by auto
    show ?thesis
    proof (cases xs)
      case Nil
      have p: "BoundedQueue_pop bq = Some (NULL, bq)"
        using ring_pop_empty [of F bq] Cons.prems(1) pos Nil by simp
      from Cons.IH [OF Cons.prems(1,2)] Cons.prems(3) Pop
      obtain bq' F' where "run_ops bq ops = Some (fst (fifo_run (unat (cap bq)) xs ops), bq')"
        "ring_inv F' (snd (fifo_run (unat (cap bq)) xs ops)) bq'" "cap bq' = cap bq"
        "F' + length (snd (fifo_run (unat (cap bq)) xs ops))
           = F + length xs + count_list (fst (fifo_run (unat (cap bq)) xs ops)) (Pushed True)"
        "count_list (fst (fifo_run (unat (cap bq)) xs ops)) (Pushed True) \<le> pushes ops"
        by auto
      then show ?thesis using p Pop Nil
        by (auto simp: split_beta intro!: exI [of _ F'])
    next
      case (Cons x xs')
      from ring_pop_ok [of F x xs' bq] Cons.prems(1) pos Cons
      obtain bq1 where p: "BoundedQueue_pop bq = Some (x, bq1)"
        "ring_inv (Suc F) xs' bq1" "cap bq1 = cap bq" by auto
      from Cons.IH [OF p(2)] Cons.prems(2,3) p(3) Cons Pop
      obtain bq' F' where "run_ops bq1 ops = Some (fst (fifo_run (unat (cap bq)) xs' ops), bq')"
        "ring_inv F' (snd (fifo_run (unat (cap bq)) xs' ops)) bq'" "cap bq' = cap bq"
        "F' + length (snd (fifo_run (unat (cap bq)) xs' ops))
           = Suc F + length xs' + count_list (fst (fifo_run (unat (cap bq)) xs' ops)) (Pushed True)"
        "count_list (fst (fifo_run (unat (cap bq)) xs' ops)) (Pushed True) \<le> pushes ops"
        by auto
      then show ?thesis using p Pop Cons
        by (auto simp: split_beta intro!: exI [of _ F'])
    qed
  qed
qed


subsection \<open>Executions that leave the bounded list\<close>

lemma run_ops_append:
  "run_ops bq (ops1 @ ops2) =
     (case run_ops bq ops1 of
        None \<Rightarrow> None
      | Some (rs, bq1) \<Rightarrow> map_option (\<lambda>(rs2, q). (rs @ rs2, q)) (run_ops bq1 ops2))"
proof (induction ops1 arbitrary: bq)
  case Nil
  show ?case by (cases "run_ops bq ops2") auto
next
  case (Cons a ops1)
  show ?case
    by (cases a) (auto simp: Cons.IH option.map_comp comp_def split_beta split: option.splits)
qed

lemma fifo_run_append:
  "fifo_run c xs (ops1 @ ops2) =
     (fst (fifo_run c xs ops1) @ fst (fifo_run c (snd (fifo_run c xs ops1)) ops2),
      snd (fifo_run c (snd (fifo_run c xs ops1)) ops2))"
  by (induction ops1 arbitrary: xs) (auto simp: split_beta)

text \<open>\<open>n\<close> rounds of a push and a pop on an empty queue move both cursors by \<open>n\<close>.\<close>

lemma ring_rounds:
  assumes "ring_inv F [] bq" "F + n \<le> 2 ^ 32"
  shows "\<exists>bq'. run_ops bq (concat (replicate n [Push a, Pop]))
                  = Some (concat (replicate n [Pushed True, Popped a]), bq')
           \<and> ring_inv (F + n) [] bq' \<and> cap bq' = cap bq"
  using assms
proof (induction n arbitrary: F bq)
  case 0
  then show ?case by simp
next
  case (Suc n)
  have room: "length ([] :: ptr list) < unat (cap bq)"
    using Suc.prems(1) by (auto simp: ring_inv_def)
  from ring_push_ok [OF Suc.prems(1) room, of a] Suc.prems(2)
  obtain bq1 where p1: "BoundedQueue_push bq a = Some (True, bq1)" "ring_inv F [a] bq1"
    "cap bq1 = cap bq" by auto
  from ring_pop_ok [OF p1(2)] Suc.prems(2)
  obtain bq2 where p2: "BoundedQueue_pop bq1 = Some (a, bq2)" "ring_inv (Suc F) [] bq2"
    "cap bq2 = cap bq" using p1(3) by auto
  from Suc.IH [OF p2(2)] Suc.prems(2)
  obtain bq' where r: "run_ops bq2 (concat (replicate n [Push a, Pop]))
                  = Some (concat (replicate n [Pushed True, Popped a]), bq')"
    "ring_inv (Suc F + n) [] bq'" "cap bq' = cap bq2" by auto
  show ?case using p1 p2 r by simp
qed

lemma fifo_rounds:
  "0 < c \<Longrightarrow> fifo_run c [] (concat (replicate n [Push a, Pop]))
     = (concat (replicate n [Pushed True, Popped a]), [])"
  by (induction n) simp_all

text \<open>Pushes into a queue with room for them all.\<close>

lemma ring_fill:
  assumes "ring_inv 0 xs bq" "length xs + n \<le> unat (cap bq)"
  shows "\<exists>bq'. run_ops bq (replicate n (Push a)) = Some (replicate n (Pushed True), bq')
           \<and> ring_inv 0 (xs @ replicate n a) bq' \<and> cap bq' = cap bq"
  using assms
proof (induction n arbitrary: xs bq)
  case 0
  then show ?case by simp
next
  case (Suc n)
  have room: "length xs < unat (cap bq)" using Suc.prems(2) by simp
  moreover have "unat (cap bq) < 2 ^ 32" using unsigned_less [of "cap bq"] by simp
  ultimately have "unat (cap bq) dvd 2 ^ 32 \<or> 0 + length xs < 2 ^ 32" by simp
  from ring_push_ok [OF Suc.prems(1) room this, of a]
  obtain bq1 where p1: "BoundedQueue_push bq a = Some (True, bq1)" "ring_inv 0 (xs @ [a]) bq1"
    "cap bq1 = cap bq" by auto
  from Suc.IH [OF p1(2)] Suc.prems(2) p1(3)
  obtain bq' where r: "run_ops bq1 (replicate n (Push a)) = Some (replicate n (Pushed True), bq')"
    "ring_inv 0 ((xs @ [a]) @ replicate n a) bq'" "cap bq' = cap bq1" by auto
  show ?case using p1 r by (simp add: replicate_app_Cons_same)
qed

lemma fifo_fill:
  "length xs + n \<le> c \<Longrightarrow>
     fifo_run c xs (replicate n (Push a)) = (replicate n (Pushed True), xs @ replicate n a)"
  by (induction n arbitrary: xs) (simp_all add: replicate_app_Cons_same)

text \<open>
  With a capacity above \<open>2^31 + 1\<close> the difference \<open>1 - cap\<close> that a push finds on a full
  queue wraps around to a positive number: the push does not return.
\<close>

lemma ring_push_spin:
  assumes inv: "ring_inv F xs bq" and full: "length xs = unat (cap bq)"
    and pos: "unat (cap bq) dvd 2 ^ 32 \<or> F + length xs < 2 ^ 32"
    and big: "2 ^ 31 + 1 < unat (cap bq)"
  shows "BoundedQueue_push bq d = None"
proof -
  define c where "c = unat (cap bq)"
  define L where "L = F + length xs"
  from inv obtain els where els: "elements bq = Some els" "length els = c" "2 \<le> c"
    "first bq = of_nat F" "lastq bq = of_nat L"
    and slots: "\<And>k. F \<le> k \<Longrightarrow> k < F + c \<Longrightarrow>
          (if k < L then els ! (k mod c) = \<lparr> seq = of_nat (k + 1), data = xs ! (k - F) \<rparr>
           else seq (els ! (k mod c)) = of_nat k)"
    unfolding ring_inv_def c_def L_def by blast
  have L: "L = F + c" using full by (auto simp: L_def c_def)
  have "L mod c = F mod c" using L by simp
  have slotL: "slot_at bq (lastq bq) = Some (els, F mod c, els ! (F mod c))"
    using ring_slot [OF inv els(1), of L] pos \<open>L mod c = F mod c\<close> els(5) by (simp add: c_def L_def)
  have sq: "seq (els ! (F mod c)) = of_nat (F + 1)" using slots [of F] L els(3) by simp
  have cb: "2 ^ 31 + 1 < c" "c < 2 ^ 32"
    using big unsigned_less [of "cap bq"] by (simp_all add: c_def)
  have "(of_nat (F + 1) :: u32) - of_nat L = word_of_int (1 - int c + 2 ^ 32)"
    using L by (simp add: word_of_int_2p_len)
  then have "int32_diff (of_nat (F + 1)) (of_nat L) = signed_take_bit 31 (1 - int c + 2 ^ 32)"
    by (simp only: int32_diff_eq sint_sbintrunc') simp
  also have "\<dots> = 1 - int c + 2 ^ 32"
    by (rule signed_take_bit_int_eq_self) (use cb in simp_all)
  finally have diff: "0 < int32_diff (seq (els ! (F mod c))) (lastq bq)"
    using cb by (simp add: sq els(5))
  show ?thesis
    by (rule push_spin [OF slotL diff])
qed

text \<open>
  Capacity 3 after \<open>2^32 - 1\<close> rounds: both cursors are \<open>2^32 - 1\<close>, at index 0. The first push
  fills slot 0 and moves \<open>last\<close> to 0, which is index 0 again and not index 1: the second
  push finds there the sequence number 0 that the first has written, and overwrites its
  payload. The third push looks at slot 1, still numbered 0 for the position \<open>2^32\<close>, and
  reports a full queue.
\<close>

lemma ring_wrap3:
  assumes inv: "ring_inv 4294967295 [] bq" and c3: "cap bq = 3"
  shows "\<exists>bq'. run_ops bq [Push x, Push y, Push z]
                  = Some ([Pushed True, Pushed True, Pushed False], bq')"
proof -
  from ring_push_ok [OF inv, of x] c3
  obtain bq1 where p1: "BoundedQueue_push bq x = Some (True, bq1)"
    "ring_inv 4294967295 [x] bq1" "cap bq1 = 3" by auto
  from p1(2) obtain els where els0: "elements bq1 = Some els" "length els = unat (cap bq1)"
    "lastq bq1 = of_nat (4294967295 + length [x])"
    and slots: "\<And>k. 4294967295 \<le> k \<Longrightarrow> k < 4294967295 + unat (cap bq1) \<Longrightarrow>
          (if k < 4294967295 + length [x]
           then els ! (k mod unat (cap bq1)) = \<lparr> seq = of_nat (k + 1), data = [x] ! (k - 4294967295) \<rparr>
           else seq (els ! (k mod unat (cap bq1))) = of_nat k)"
    unfolding ring_inv_def by blast
  have els: "elements bq1 = Some els" "length els = 3" "lastq bq1 = 0"
    using els0 p1(3) by simp_all
  have e0: "els ! 0 = \<lparr> seq = 0, data = x \<rparr>" using slots [of 4294967295] p1(3) by simp
  have e1: "seq (els ! 1) = 0" using slots [of 4294967296] p1(3) by simp
  have slot1: "slot_at bq1 (lastq bq1) = Some (els, 0, els ! 0)"
    using els p1(3) by (simp add: slot_at_def)
  have d1: "int32_diff (seq (els ! 0)) (lastq bq1) = 0"
    by (simp add: e0 els(3) int32_diff_eq)
  define bq2 where "bq2 = bq1\<lparr> lastq := lastq bq1 + 1,
       elements := Some (els[0 := \<lparr> seq = lastq bq1 + 1, data = y \<rparr>]) \<rparr>"
  have p2: "BoundedQueue_push bq1 y = Some (True, bq2)"
    unfolding bq2_def by (rule push_free [OF slot1 d1])
  have slot2: "slot_at bq2 (lastq bq2) = Some (els[0 := \<lparr> seq = 1, data = y \<rparr>], 1, els ! 1)"
    using els p1(3) by (simp add: slot_at_def bq2_def)
  have d2: "int32_diff (seq (els ! 1)) (lastq bq2) < 0"
    using e1 by (simp add: els(3) bq2_def int32_diff_eq)
  have p3: "BoundedQueue_push bq2 z = Some (False, bq2)"
    by (rule push_full [OF slot2 d2])
  show ?thesis using p1(1) p2 p3 by simp
qed
text \<open>
  Capacity 3 after \<open>2^32\<close> rounds: both cursors have wrapped around to 0, index 0, where
  the slot of position \<open>2^32 + 2\<close> carries the sequence number 2. The pop on the empty
  queue finds the difference 1: it neither takes the slot nor answers empty, and retries
  for ever.
\<close>

lemma ring_pop_wrap3:
  assumes inv: "ring_inv 4294967296 [] bq" and c3: "cap bq = 3"
  shows "BoundedQueue_pop bq = None"
proof -
  from inv obtain els where els0: "elements bq = Some els" "length els = unat (cap bq)"
    "first bq = of_nat 4294967296"
    and slots: "\<And>k. 4294967296 \<le> k \<Longrightarrow> k < 4294967296 + unat (cap bq) \<Longrightarrow>
          (if k < 4294967296 + length ([] :: ptr list)
           then els ! (k mod unat (cap bq)) = \<lparr> seq = of_nat (k + 1), data = [] ! (k - 4294967296) \<rparr>
           else seq (els ! (k mod unat (cap bq))) = of_nat k)"
    unfolding ring_inv_def by blast
  have els: "elements bq = Some els" "length els = 3" "first bq = 0"
    using els0 c3 by simp_all
  have e0: "seq (els ! 0) = 2" using slots [of 4294967298] c3 by simp
  have slot: "slot_at bq (first bq) = Some (els, 0, els ! 0)"
    using els c3 by (simp add: slot_at_def)
  have d: "0 < int32_diff (seq (els ! 0)) (first bq + 1)"
    by (simp add: e0 els(3) int32_diff_eq)
  show ?thesis by (rule pop_spin [OF slot d])
qed

subsection \<open>C3: the queue is a bounded FIFO\<close>

text \<open>
  C3 (as amended). For a capacity \<open>c\<close> from 2 to \<open>2^31 + 1\<close> and a sequential execution
  \<open>ops\<close> of pushes and pops on a freshly initialised queue, with fewer than \<open>2^32\<close> pushes
  unless \<open>c\<close> divides \<open>2^32\<close>: every call returns, and the results are those of the bounded
  list of the specification. Push returns false, leaving the queue as it is, exactly when
  \<open>c\<close> payloads are stored; pop returns \<open>NULL\<close> when none is stored and the oldest stored
  payload otherwise, removing it; the payloads stored at the end are those of the list, so
  no slot is lost, and the capacity is unchanged.
\<close>

theorem BoundedQueue_fifo:
  assumes "2 \<le> unat c" "unat c \<le> 2 ^ 31 + 1" "unat c dvd 2 ^ 32 \<or> pushes ops < 2 ^ 32"
  shows "\<exists>bq. run_ops (BoundedQueue_init c er) ops = Some (fst (fifo_run (unat c) [] ops), bq)
           \<and> stored bq = snd (fifo_run (unat c) [] ops) \<and> cap bq = c"
proof -
  have c: "cap (BoundedQueue_init c er) = c" by (simp add: BoundedQueue_init_def)
  from run_ops_refines [OF ring_init [OF assms(1), of er], of ops] assms(2,3) c
  obtain bq F where r: "run_ops (BoundedQueue_init c er) ops = Some (fst (fifo_run (unat c) [] ops), bq)"
    "ring_inv F (snd (fifo_run (unat c) [] ops)) bq" "cap bq = c"
    "F + length (snd (fifo_run (unat c) [] ops)) \<le> pushes ops"
    by fastforce
  have "stored bq = snd (fifo_run (unat c) [] ops)"
    by (rule ring_stored [OF r(2)]) (use r(3,4) assms(3) in auto)
  then show ?thesis using r by blast
qed

theorem BoundedQueue_fifo_witness:
  "2 \<le> unat (3 :: u32) \<and> unat (3 :: u32) \<le> 2 ^ 31 + 1
   \<and> (unat (3 :: u32) dvd 2 ^ 32
        \<or> pushes [Push (Addr 1), Push (Addr 2), Push (Addr 3), Push (Addr 4), Pop, Pop, Push (Addr 5),
                  Pop, Pop, Pop] < 2 ^ 32)
   \<and> (\<exists>bq. run_ops (BoundedQueue_init 3 NoRelease)
               [Push (Addr 1), Push (Addr 2), Push (Addr 3), Push (Addr 4), Pop, Pop, Push (Addr 5),
                Pop, Pop, Pop]
             = Some ([Pushed True, Pushed True, Pushed True, Pushed False,
                      Popped (Addr 1), Popped (Addr 2), Pushed True,
                      Popped (Addr 3), Popped (Addr 5), Popped NULL], bq)
           \<and> stored bq = [] \<and> cap bq = 3)"
  using BoundedQueue_fifo [of 3 "[Push (Addr 1), Push (Addr 2), Push (Addr 3), Push (Addr 4), Pop, Pop,
     Push (Addr 5), Pop, Pop, Pop]" NoRelease]
  by simp

text \<open>
  Four executions on which the code leaves the claim as the specification words it.

  With capacity 1 the second push finds the sequence number of the only slot equal to
  \<open>last\<close> again: it returns true with one payload stored and overwrites it, where the
  bounded list refuses.

  A \<open>NULL\<close> payload is accepted by push, and the pop that removes it returns \<open>NULL\<close>, the
  answer for an empty queue, with one payload stored.

  With capacity 3, after \<open>2^32 - 1\<close> rounds of a push and a pop the cursor \<open>last\<close> wraps
  around to 0 and the index \<open>last % cap\<close> jumps from 0 back to 0: of three pushes into the
  empty queue the second overwrites the payload of the first and the third is refused.
  And after \<open>2^32\<close> rounds, the least number of pushes that the theorem above leaves
  out, the pop on the empty queue does not return.

  With capacity \<open>2^31 + 2\<close> the push on the full queue computes the difference \<open>1 - cap\<close>,
  which wraps around to \<open>2^31 - 1\<close>: it neither claims the slot nor reports a full queue,
  and retries for ever.
\<close>

theorem BoundedQueue_fifo_counterexample:
  "run_ops (BoundedQueue_init 1 NoRelease) [Push (Addr 1), Push (Addr 2)]
     = Some ([Pushed True, Pushed True],
             \<lparr> cap = 1, elements = Some [\<lparr> seq = 2, data = Addr 2 \<rparr>], first = 0, lastq = 2,
               elementRelease = NoRelease \<rparr>)
   \<and> fifo_run 1 [] [Push (Addr 1), Push (Addr 2)] = ([Pushed True, Pushed False], [Addr 1])
   \<and> results 2 [Push NULL, Pop] = Some [Pushed True, Popped NULL]
   \<and> fifo_run 2 [] [Push NULL] = ([Pushed True], [NULL])
   \<and> results 3 (concat (replicate 4294967295 [Push (Addr 1), Pop])
                  @ [Push (Addr 1), Push (Addr 2), Push (Addr 3)])
       = Some (concat (replicate 4294967295 [Pushed True, Popped (Addr 1)])
                 @ [Pushed True, Pushed True, Pushed False])
   \<and> fst (fifo_run 3 [] (concat (replicate 4294967295 [Push (Addr 1), Pop])
                  @ [Push (Addr 1), Push (Addr 2), Push (Addr 3)]))
       = concat (replicate 4294967295 [Pushed True, Popped (Addr 1)])
           @ [Pushed True, Pushed True, Pushed True]
   \<and> results 3 (concat (replicate 4294967296 [Push (Addr 1), Pop]) @ [Pop]) = None
   \<and> fst (fifo_run 3 [] (concat (replicate 4294967296 [Push (Addr 1), Pop]) @ [Pop]))
       = concat (replicate 4294967296 [Pushed True, Popped (Addr 1)]) @ [Popped NULL]
   \<and> results 2147483650 (replicate 2147483650 (Push (Addr 1)) @ [Push (Addr 1)]) = None
   \<and> fst (fifo_run 2147483650 [] (replicate 2147483650 (Push (Addr 1)) @ [Push (Addr 1)]))
       = replicate 2147483650 (Pushed True) @ [Pushed False]"
proof -
  have one: "run_ops (BoundedQueue_init 1 NoRelease) [Push (Addr 1), Push (Addr 2)]
     = Some ([Pushed True, Pushed True],
             \<lparr> cap = 1, elements = Some [\<lparr> seq = 2, data = Addr 2 \<rparr>], first = 0, lastq = 2,
               elementRelease = NoRelease \<rparr>)
   \<and> fifo_run 1 [] [Push (Addr 1), Push (Addr 2)] = ([Pushed True, Pushed False], [Addr 1])
   \<and> results 2 [Push NULL, Pop] = Some [Pushed True, Popped NULL]
   \<and> fifo_run 2 [] [Push NULL] = ([Pushed True], [NULL])"
    by code_simp
  have c3: "cap (BoundedQueue_init 3 NoRelease) = 3" "cap (BoundedQueue_init 2147483650 NoRelease) = 2147483650"
    by (simp_all add: BoundedQueue_init_def)
  have "(2 :: nat) \<le> unat (3 :: u32)" by simp
  from ring_rounds [OF ring_init [OF this, of NoRelease], of 4294967295 "Addr 1"]
  obtain bq where r: "run_ops (BoundedQueue_init 3 NoRelease) (concat (replicate 4294967295 [Push (Addr 1), Pop]))
        = Some (concat (replicate 4294967295 [Pushed True, Popped (Addr 1)]), bq)"
    "ring_inv (0 + 4294967295) [] bq" "cap bq = 3"
    unfolding c3 by fastforce
  from r(2) have "ring_inv 4294967295 [] bq" by (simp only: add_0)
  from ring_wrap3 [OF this r(3), of "Addr 1" "Addr 2" "Addr 3"]
  obtain bq' where w: "run_ops bq [Push (Addr 1), Push (Addr 2), Push (Addr 3)]
        = Some ([Pushed True, Pushed True, Pushed False], bq')" by blast
  have three: "results 3 (concat (replicate 4294967295 [Push (Addr 1), Pop])
                  @ [Push (Addr 1), Push (Addr 2), Push (Addr 3)])
       = Some (concat (replicate 4294967295 [Pushed True, Popped (Addr 1)])
                 @ [Pushed True, Pushed True, Pushed False])"
    unfolding results_def run_ops_append r(1) by (simp only: option.case prod.case w) simp
  have three': "fst (fifo_run 3 [] (concat (replicate 4294967295 [Push (Addr 1), Pop])
                  @ [Push (Addr 1), Push (Addr 2), Push (Addr 3)]))
       = concat (replicate 4294967295 [Pushed True, Popped (Addr 1)])
           @ [Pushed True, Pushed True, Pushed True]"
  proof -
    have fr: "fifo_run 3 [] (concat (replicate 4294967295 [Push (Addr 1), Pop]))
        = (concat (replicate 4294967295 [Pushed True, Popped (Addr 1)]), [])"
      by (rule fifo_rounds) simp
    have tl: "fifo_run 3 [] [Push (Addr 1), Push (Addr 2), Push (Addr 3)]
        = ([Pushed True, Pushed True, Pushed True], [Addr 1, Addr 2, Addr 3])"
      by simp
    show ?thesis by (simp only: fifo_run_append fr tl fst_conv snd_conv)
  qed
  have "(2 :: nat) \<le> unat (3 :: u32)" by simp
  from ring_rounds [OF ring_init [OF this, of NoRelease], of 4294967296 "Addr 1"]
  obtain bq3 where r3: "run_ops (BoundedQueue_init 3 NoRelease) (concat (replicate 4294967296 [Push (Addr 1), Pop]))
        = Some (concat (replicate 4294967296 [Pushed True, Popped (Addr 1)]), bq3)"
    "ring_inv (0 + 4294967296) [] bq3" "cap bq3 = 3"
    unfolding c3 by fastforce
  from r3(2) have "ring_inv 4294967296 [] bq3" by (simp only: add_0)
  from ring_pop_wrap3 [OF this r3(3)] have "BoundedQueue_pop bq3 = None" .
  then have four: "results 3 (concat (replicate 4294967296 [Push (Addr 1), Pop]) @ [Pop]) = None"
    unfolding results_def run_ops_append r3(1) by (simp only: option.case prod.case run_ops.simps) simp
  have four': "fst (fifo_run 3 [] (concat (replicate 4294967296 [Push (Addr 1), Pop]) @ [Pop]))
       = concat (replicate 4294967296 [Pushed True, Popped (Addr 1)]) @ [Popped NULL]"
  proof -
    have fr: "fifo_run 3 [] (concat (replicate 4294967296 [Push (Addr 1), Pop]))
        = (concat (replicate 4294967296 [Pushed True, Popped (Addr 1)]), [])"
      by (rule fifo_rounds) simp
    have tl: "fifo_run 3 [] [Pop] = ([Popped NULL], [])"
      by simp
    show ?thesis by (simp only: fifo_run_append fr tl fst_conv snd_conv)
  qed
  have "(2 :: nat) \<le> unat (2147483650 :: u32)" by simp
  from ring_fill [OF ring_init [OF this, of NoRelease], of 2147483650 "Addr 1"]
  obtain bq2 where f: "run_ops (BoundedQueue_init 2147483650 NoRelease) (replicate 2147483650 (Push (Addr 1)))
        = Some (replicate 2147483650 (Pushed True), bq2)"
    "ring_inv 0 ([] @ replicate 2147483650 (Addr 1)) bq2" "cap bq2 = 2147483650"
    unfolding c3 by fastforce
  have "BoundedQueue_push bq2 (Addr 1) = None"
    by (rule ring_push_spin [OF f(2)]) (simp_all only: f(3) length_append length_replicate list.size, simp_all)
  then have big: "results 2147483650 (replicate 2147483650 (Push (Addr 1)) @ [Push (Addr 1)]) = None"
    unfolding results_def run_ops_append f(1) by (simp only: option.case prod.case run_ops.simps) simp
  have big': "fst (fifo_run 2147483650 [] (replicate 2147483650 (Push (Addr 1)) @ [Push (Addr 1)]))
       = replicate 2147483650 (Pushed True) @ [Pushed False]"
  proof -
    have fr: "fifo_run 2147483650 [] (replicate 2147483650 (Push (Addr 1)))
        = (replicate 2147483650 (Pushed True), [] @ replicate 2147483650 (Addr 1))"
      by (rule fifo_fill) simp
    have tl: "fifo_run 2147483650 ([] @ replicate 2147483650 (Addr 1)) [Push (Addr 1)]
        = ([Pushed False], [] @ replicate 2147483650 (Addr 1))"
      by (simp only: fifo_run.simps fifo_step.simps length_append length_replicate list.size)
         simp
    show ?thesis by (simp only: fifo_run_append fr tl fst_conv snd_conv)
  qed
  show ?thesis
    using one three three' four four' big big' by (simp only: simp_thms)
qed

subsection \<open>The spin lock in a sequential execution\<close>

lemma spinLock_True [simp]: "spinLock l = True"
  by (cases l) (simp_all add: spinLock_def atomic_compare_exchange_def)

lemma spinUnlock_False [simp]: "spinUnlock l = False"
  by (cases l) (simp_all add: spinUnlock_def atomic_compare_exchange_def)

lemma spinTryLock_eq [simp]: "spinTryLock l = (\<not> l, True)"
  by (cases l) (simp_all add: spinTryLock_def atomic_compare_exchange_def)

subsection \<open>C2: the lock after a successful send\<close>

text \<open>
  C2 asks that \<open>Process_sendMessage\<close> leaves the destination's \<open>releaseLock\<close> free whenever
  it returns. The source returns \<open>SEND_SUCCESS\<close> at line 294 before the \<open>spinUnlock\<close> of line
  303: a send to the freshly spawned process of the example runtime finds the lock free,
  returns \<open>SEND_SUCCESS\<close> and leaves the lock taken.
\<close>

theorem send_success_keeps_lock:
  "map_option fst
     (Process_sendMessage [100 \<mapsto> snd example_spawn] (fst example_spawn) (Addr 55) MA_KEEP)
     = Some SEND_SUCCESS
   \<and> map_option (\<lambda>r. snd r 100)
       (Process_sendMessage [100 \<mapsto> snd example_spawn] (fst example_spawn) (Addr 55) MA_KEEP)
     = Some (Some example_sent)
   \<and> \<not> releaseLock (processes (snd example_spawn) ! 0)
   \<and> releaseLock (processes example_sent ! 0)"
  by code_simp

text \<open>
  In general: whenever a send returns \<open>SEND_SUCCESS\<close> or \<open>SEND_FAIL\<close>, the lock of the
  destination is taken on return, by this call or by an earlier one.
\<close>

lemma send_keeps_lock:
  assumes "Process_sendMessage mem dest message ma = Some (r, mem')" "r \<noteq> ACTOR_IS_DEAD"
    "pq dest = Addr a"
  shows "\<exists>w'. mem' a = Some w' \<and> releaseLock (processes w' ! unat (pid_id dest))"
  using assms
  by (auto simp: Process_sendMessage_def Let_def upd_proc_def put_inbox_def emit_def emit_under_def
        call_messageRelease_def
      split: option.splits if_splits MessageAction.splits ElementRelease.splits)

subsection \<open>C6: spawn at capacity\<close>

text \<open>
  C6. When \<open>procCount\<close> has reached \<open>processCap\<close>, so that the incremented count exceeds it,
  \<open>ProcessQueue_spawn\<close> returns the null PID and leaves the runtime as it was: \<open>procCount\<close>
  is back at its value, the process table, \<open>procPool\<close> and \<open>runQueue\<close> are untouched, and the
  only call made is the one call of \<open>releaseState\<close> on the initial state, when a destructor
  was supplied.
\<close>

theorem spawn_at_capacity:
  assumes "processCap w \<le> procCount w"
  shows "ProcessQueue_spawn w parameters =
           Some (null_PID,
                 w\<lparr> trace := trace w @
                      (if p_releaseState parameters \<noteq> NULL
                       then [CallReleaseState (p_releaseState parameters) (initialState parameters)]
                       else []) \<rparr>)"
  using assms by (simp add: ProcessQueue_spawn_def Let_def emit_def not_less [symmetric])

theorem spawn_at_capacity_witness:
  "processCap example_full \<le> procCount example_full
   \<and> ProcessQueue_spawn example_full example_parameters =
       Some (null_PID,
             example_full\<lparr> trace := trace example_full @ [CallReleaseState (Addr 8) (Addr 1000)] \<rparr>)"
proof -
  have h: "processCap example_full \<le> procCount example_full"
    by code_simp
  show ?thesis
    using h spawn_at_capacity [OF h, of example_parameters]
    by (simp add: example_parameters_def)
qed

subsection \<open>C7: the parent of a root process\<close>

text \<open>
  C7 asks for a null PID when the calling process has no parent. The process spawned into
  the example runtime from outside a handler has a null \<open>parent\<close>; inside its handler
  \<open>Process_self\<close> returns its PID, and \<open>Process_parent\<close> dereferences the null pointer.
\<close>

theorem Process_parent_of_root:
  "parent (processes (snd example_spawn) ! 0) = NULL
   \<and> Process_self ((snd example_spawn)\<lparr> currentProcess := Addr 0 \<rparr>)
       = Some \<lparr> pq = Addr 100, pid_id = 0, pid_gen = 0 \<rparr>
   \<and> Process_parent ((snd example_spawn)\<lparr> currentProcess := Addr 0 \<rparr>) = None"
  by code_simp

text \<open>For a process with a parent the body builds the PID the claim describes.\<close>

lemma Process_parent_of_child:
  assumes "currentProcess w = Addr p" "p < length (processes w)"
    "parent (processes w ! p) = Addr q" "q < length (processes w)"
  shows "Process_parent w = Some \<lparr> pq = Addr (addr w), pid_id = proc_id (processes w ! q),
                                   pid_gen = gen (processes w ! q) \<rparr>"
  using assms by (simp add: Process_parent_def)

subsection \<open>C10: send needs a valid PID\<close>

text \<open>
  C10. \<open>Process_sendMessage\<close> has a result only if \<open>dest.pq\<close> points to a runtime and
  \<open>dest.id\<close> is an index of its process array, that is, below \<open>processCap\<close> for the
  array of \<open>processCap\<close> slots that \<open>ProcessQueue_init\<close> allocates; on the null PID that a
  failed spawn returns it has none.
\<close>

theorem send_needs_valid_pid:
  "(Process_sendMessage mem dest message ma \<noteq> None \<longrightarrow>
      (\<exists>a w. pq dest = Addr a \<and> mem a = Some w \<and> unat (pid_id dest) < length (processes w)
         \<and> (length (processes w) = unat (processCap w) \<longrightarrow> pid_id dest < processCap w)))
   \<and> Process_sendMessage mem null_PID message ma = None"
  by (auto simp: Process_sendMessage_def null_PID_def Let_def word_less_nat_alt
           split: ptr.splits option.splits)

theorem send_needs_valid_pid_witness:
  "Process_sendMessage [100 \<mapsto> snd example_spawn] (fst example_spawn) (Addr 55) MA_KEEP \<noteq> None
   \<and> (\<exists>a w. pq (fst example_spawn) = Addr a \<and> [100 \<mapsto> snd example_spawn] a = Some w
          \<and> unat (pid_id (fst example_spawn)) < length (processes w)
          \<and> (length (processes w) = unat (processCap w) \<longrightarrow> pid_id (fst example_spawn) < processCap w))
   \<and> Process_sendMessage [100 \<mapsto> snd example_spawn] null_PID (Addr 55) MA_KEEP = None"
proof -
  have h: "Process_sendMessage [100 \<mapsto> snd example_spawn] (fst example_spawn) (Addr 55) MA_KEEP \<noteq> None"
    by code_simp
  show ?thesis
    using h send_needs_valid_pid [of "[100 \<mapsto> snd example_spawn]" "fst example_spawn" "Addr 55" MA_KEEP]
    by blast
qed

subsection \<open>What the release of a queue keeps\<close>

lemma release_loop_preserves:
  assumes "release_loop get put call s = Some s'" "Q s"
    and "\<And>bq s. Q s \<Longrightarrow> Q (put bq s)"
    and "\<And>er e s s'. Q s \<Longrightarrow> call er e s = Some s' \<Longrightarrow> Q s'"
  shows "Q s'"
proof -
  have "Q s \<longrightarrow> (\<forall>bq s. Q s \<longrightarrow> Q (put bq s))
          \<longrightarrow> (\<forall>er e s s'. Q s \<longrightarrow> call er e s = Some s' \<longrightarrow> Q s') \<longrightarrow> Q s'"
  proof (rule release_loop.raw_induct
      [where P = "\<lambda>get put call s s'. Q s \<longrightarrow> (\<forall>bq s. Q s \<longrightarrow> Q (put bq s))
          \<longrightarrow> (\<forall>er e s s'. Q s \<longrightarrow> call er e s = Some s' \<longrightarrow> Q s') \<longrightarrow> Q s'", OF _ assms(1)])
    fix rl :: "('a \<Rightarrow> BoundedQueue) \<Rightarrow> (BoundedQueue \<Rightarrow> 'a \<Rightarrow> 'a) \<Rightarrow> (ElementRelease \<Rightarrow> ptr \<Rightarrow> 'a \<Rightarrow> 'a option) \<Rightarrow> 'a \<Rightarrow> 'a option"
      and get put call s s'
    assume IH: "\<And>put call s b y. rl put call s b = Some y \<Longrightarrow>
        Q b \<longrightarrow> (\<forall>bq s. Q s \<longrightarrow> Q (call bq s))
          \<longrightarrow> (\<forall>er e sa s'. Q sa \<longrightarrow> s er e sa = Some s' \<longrightarrow> Q s') \<longrightarrow> Q y"
      and step: "(case BoundedQueue_pop (get s) of None \<Rightarrow> None
          | Some (element, bq') \<Rightarrow>
              if element = NULL then Some (put bq' s)
              else case call (elementRelease bq') element (put bq' s) of
                   None \<Rightarrow> None | Some s' \<Rightarrow> rl get put call s') = Some s'"
    show "Q s \<longrightarrow> (\<forall>bq s. Q s \<longrightarrow> Q (put bq s))
          \<longrightarrow> (\<forall>er e s s'. Q s \<longrightarrow> call er e s = Some s' \<longrightarrow> Q s') \<longrightarrow> Q s'"
    proof (intro impI)
      assume Q: "Q s" and P: "\<forall>bq s. Q s \<longrightarrow> Q (put bq s)"
        and C: "\<forall>er e s s'. Q s \<longrightarrow> call er e s = Some s' \<longrightarrow> Q s'"
      from step obtain element bq' where pop: "BoundedQueue_pop (get s) = Some (element, bq')"
        by (auto split: option.splits)
      show "Q s'"
      proof (cases "element = NULL")
        case True
        then show ?thesis using step pop Q P by auto
      next
        case False
        with step pop obtain s1 where c: "call (elementRelease bq') element (put bq' s) = Some s1"
          and r: "rl get put call s1 = Some s'"
          by (auto split: option.splits)
        have "Q s1" using C Q P c by blast
        then show ?thesis using IH [OF r] P C by blast
      qed
    qed
  qed
  then show ?thesis using assms(2-4) by blast
qed

lemma BoundedQueue_release_preserves:
  assumes "BoundedQueue_release get put call s = Some s'" "Q s"
    and "\<And>bq s. Q s \<Longrightarrow> Q (put bq s)"
    and "\<And>er e s s'. Q s \<Longrightarrow> call er e s = Some s' \<Longrightarrow> Q s'"
  shows "Q s'"
proof (cases "elementRelease (get s) \<noteq> NoRelease")
  case True
  with assms(1) obtain s1 where l: "release_loop get put call s = Some s1"
    and s': "s' = put ((get s1)\<lparr> elements := None \<rparr>) s1"
    by (auto simp: BoundedQueue_release_def split: option.splits)
  have "Q s1" by (rule release_loop_preserves [OF l assms(2-4)])
  then show ?thesis using s' assms(3) by simp
next
  case False
  then show ?thesis using assms(1-3) by (auto simp: BoundedQueue_release_def)
qed


lemma inbox_frame_refl: "p < length (processes w) \<Longrightarrow> inbox_frame p w w"
  unfolding inbox_frame_def
  by (rule exI [of _ "get_inbox p w"], rule exI [of _ "[]"])
     (simp add: put_inbox_def get_inbox_def upd_proc_def)

lemma put_inbox_twice: "put_inbox p bq (put_inbox p bq' w) = put_inbox p bq w"
  by (cases "p < length (processes w)") (simp_all add: put_inbox_def upd_proc_def list_update_beyond)

lemma inbox_frame_put: "inbox_frame p w w' \<Longrightarrow> inbox_frame p w (put_inbox p bq w')"
  unfolding inbox_frame_def using put_inbox_twice by blast

lemma inbox_frame_call:
  assumes fr: "inbox_frame p w w'" and c: "call_messageRelease (emit_under p) er e w' = Some w''"
    and p: "p < length (processes w)" and lock: "releaseLock (processes w ! p)"
  shows "inbox_frame p w w''"
proof -
  from fr obtain bq ms where w': "w' = put_inbox p bq (w\<lparr> trace := trace w @ map (Under p) ms \<rparr>)"
    and ms: "\<forall>e \<in> set ms. \<exists>f x. e = CallElementRelease f x"
    by (auto simp: inbox_frame_def)
  have "releaseLock (processes w' ! p)"
    using p lock by (simp add: w' put_inbox_def upd_proc_def)
  with c obtain f where "w'' = emit (Under p (CallElementRelease f e)) w'"
    by (auto simp: call_messageRelease_def emit_under_def split: ElementRelease.splits)
  then have "w'' = put_inbox p bq (w\<lparr> trace := trace w @ map (Under p) (ms @ [CallElementRelease f e]) \<rparr>)"
    by (simp add: w' emit_def put_inbox_def upd_proc_def)
  moreover have "\<forall>e \<in> set (ms @ [CallElementRelease f e]). \<exists>f x. e = CallElementRelease f x"
    using ms by auto
  ultimately show ?thesis unfolding inbox_frame_def by blast
qed

lemma inbox_release_frame:
  assumes "BoundedQueue_release (get_inbox p) (put_inbox p) (call_messageRelease (emit_under p)) w = Some w'"
    "p < length (processes w)" "releaseLock (processes w ! p)"
  shows "inbox_frame p w w'"
  by (rule BoundedQueue_release_preserves [OF assms(1), where Q = "inbox_frame p w"])
     (auto intro: inbox_frame_refl assms(2) inbox_frame_put inbox_frame_call [OF _ _ assms(2,3)])

text \<open>The events of a retirement of slot \<open>p\<close> with the message releases \<open>ms\<close>.\<close>

lemma processRelease_result:
  assumes "processRelease (Addr p) w = Some w'"
  shows "\<exists>bq pool' ms.
           w' = w\<lparr> processes := (processes w)[p := (processes w ! p)
                      \<lparr> gen := gen (processes w ! p) + 1, messageQueue := bq, releaseLock := False \<rparr>],
                   procPool := pool',
                   trace := trace w @ retirement p
                      (if releaseState (processes w ! p) \<noteq> NULL
                       then [CallReleaseState (releaseState (processes w ! p)) (state (processes w ! p))]
                       else []) ms \<rparr>
           \<and> (\<forall>e \<in> set ms. \<exists>f x. e = CallElementRelease f x)
           \<and> p < length (processes w)"
proof -
  from assms have p: "p < length (processes w)"
    by (auto simp: processRelease_def split: if_splits)
  define w3 where "w3 = (let w1 = emit (LockAcquired p)
                       (upd_proc p (\<lambda>proc. proc\<lparr> releaseLock := spinLock (releaseLock proc) \<rparr>) w);
                w2 = emit_under p (GenIncremented p)
                       (upd_proc p (\<lambda>proc. proc\<lparr> gen := gen proc + 1 \<rparr>) w1);
                proc = processes w2 ! p
             in (if releaseState proc \<noteq> NULL
                      then emit_under p (CallReleaseState (releaseState proc) (state proc)) w2 else w2))"
  have w3: "w3 = w\<lparr> processes := (processes w)[p := (processes w ! p)
                      \<lparr> gen := gen (processes w ! p) + 1, releaseLock := True \<rparr>],
                   trace := trace w @ [LockAcquired p, Under p (GenIncremented p)]
                      @ map (Under p) (if releaseState (processes w ! p) \<noteq> NULL
                         then [CallReleaseState (releaseState (processes w ! p)) (state (processes w ! p))]
                         else []) \<rparr>"
    using p by (cases "processes w ! p") (simp add: w3_def Let_def emit_def emit_under_def upd_proc_def)
  have p3: "p < length (processes w3)" "releaseLock (processes w3 ! p)" using p by (simp_all add: w3)
  from assms p obtain w4 pool' b where
    rel: "BoundedQueue_release (get_inbox p) (put_inbox p) (call_messageRelease (emit_under p)) w3 = Some w4"
    and w': "w' = emit (LockReleased p)
                   (upd_proc p (\<lambda>proc. proc\<lparr> releaseLock := spinUnlock (releaseLock proc) \<rparr>)
                      (emit_under p (PoolPush p) ((emit_under p (InboxFreed p) w4)\<lparr> procPool := pool' \<rparr>)))"
    unfolding processRelease_def w3_def
    by (auto simp: Let_def split: option.splits if_splits)
  have "inbox_frame p w3 w4"
    using inbox_release_frame [OF rel p3] .
  then obtain bq ms where w4: "w4 = put_inbox p bq (w3\<lparr> trace := trace w3 @ map (Under p) ms \<rparr>)"
    and ms: "\<forall>e \<in> set ms. \<exists>f x. e = CallElementRelease f x"
    by (auto simp: inbox_frame_def)
  have "w' = w\<lparr> processes := (processes w)[p := (processes w ! p)
                      \<lparr> gen := gen (processes w ! p) + 1, messageQueue := bq, releaseLock := False \<rparr>],
                   procPool := pool',
                   trace := trace w @ retirement p
                      (if releaseState (processes w ! p) \<noteq> NULL
                       then [CallReleaseState (releaseState (processes w ! p)) (state (processes w ! p))]
                       else []) ms \<rparr>"
    using p by (cases "processes w ! p")
      (simp add: w' w4 w3 emit_def emit_under_def upd_proc_def put_inbox_def retirement_def)
  then show ?thesis using ms p by blast
qed

lemma processRelease_gen:
  assumes "processRelease (Addr p) w = Some w'"
  shows "p < length (processes w) \<and> length (processes w') = length (processes w)
         \<and> gen (processes w' ! p) = gen (processes w ! p) + 1
         \<and> \<not> releaseLock (processes w' ! p)
         \<and> (\<forall>i. i \<noteq> p \<longrightarrow> processes w' ! i = processes w ! i)"
proof -
  from processRelease_result [OF assms] obtain bq pool' t where
    w': "w' = w\<lparr> processes := (processes w)[p := (processes w ! p)
                      \<lparr> gen := gen (processes w ! p) + 1, messageQueue := bq, releaseLock := False \<rparr>],
                   procPool := pool', trace := t \<rparr>"
    and p: "p < length (processes w)"
    by blast
  show ?thesis using p by (simp add: w')
qed

subsection \<open>Generations: spawn, retirement, send\<close>

lemma procPool_pop_loop_frame:
  assumes "procPool_pop_loop w = Some (p, w')"
  shows "\<exists>pool t. w' = w\<lparr> procPool := pool, trace := t \<rparr>"
proof -
  have "\<forall>p w'. y = (p, w') \<longrightarrow> (\<exists>pool t. w' = x\<lparr> procPool := pool, trace := t \<rparr>)"
    if "procPool_pop_loop x = Some y" for x y
  proof (rule procPool_pop_loop.raw_induct
      [where P = "\<lambda>x y. \<forall>p w'. y = (p, w') \<longrightarrow> (\<exists>pool t. w' = x\<lparr> procPool := pool, trace := t \<rparr>)",
       OF _ that])
    fix f :: "ProcessQueue \<Rightarrow> (nat \<times> ProcessQueue) option" and w wa
    assume IH: "\<And>x y. f x = Some y \<Longrightarrow>
        \<forall>p w'. y = (p, w') \<longrightarrow> (\<exists>pool t. w' = x\<lparr> procPool := pool, trace := t \<rparr>)"
      and step: "(case BoundedQueue_pop (procPool w) of None \<Rightarrow> None
          | Some (NULL, pool') \<Rightarrow> f (emit Yield (w\<lparr>procPool := pool'\<rparr>))
          | Some (Addr p, pool') \<Rightarrow> Some (p, w\<lparr>procPool := pool'\<rparr>)) = Some wa"
    from step obtain procp pool' where pop: "BoundedQueue_pop (procPool w) = Some (procp, pool')"
      by (auto split: option.splits)
    show "\<forall>p w'. wa = (p, w') \<longrightarrow> (\<exists>pool t. w' = w\<lparr> procPool := pool, trace := t \<rparr>)"
    proof (cases procp)
      case NULL
      with step pop have "f (emit Yield (w\<lparr>procPool := pool'\<rparr>)) = Some wa" by simp
      from IH [OF this] show ?thesis
        by (auto simp: emit_def)
    next
      case (Addr q)
      with step pop have "wa = (q, w\<lparr>procPool := pool'\<rparr>)" by simp
      then show ?thesis
        by (auto intro!: exI [of _ pool'] exI [of _ "trace w"])
    qed
  qed
  then show ?thesis using assms by blast
qed

lemma runQueue_push_loop_frame:
  assumes "runQueue_push_loop p w = Some w'"
  shows "\<exists>rq t. w' = w\<lparr> runQueue := rq, trace := t \<rparr>"
proof (rule runQueue_push_loop.raw_induct
    [where P = "\<lambda>p w w'. \<exists>rq t. w' = w\<lparr> runQueue := rq, trace := t \<rparr>", OF _ assms])
  fix f :: "nat \<Rightarrow> ProcessQueue \<Rightarrow> ProcessQueue option" and p w pa
  assume IH: "\<And>w b y. f w b = Some y \<Longrightarrow> \<exists>rq t. y = b\<lparr> runQueue := rq, trace := t \<rparr>"
    and step: "(case BoundedQueue_push (runQueue w) (Addr p) of None \<Rightarrow> None
        | Some (ok, rq') \<Rightarrow>
            if ok then Some (put_runQueue rq' w)
            else f p (emit Yield (put_runQueue rq' w))) = Some pa"
  from step obtain ok rq' where push: "BoundedQueue_push (runQueue w) (Addr p) = Some (ok, rq')"
    by (auto split: option.splits)
  show "\<exists>rq t. pa = w\<lparr> runQueue := rq, trace := t \<rparr>"
  proof (cases ok)
    case True
    with step push have "pa = put_runQueue rq' w" by simp
    then show ?thesis
      by (auto simp: put_runQueue_def intro!: exI [of _ rq'] exI [of _ "trace w"])
  next
    case False
    with step push have "f p (emit Yield (put_runQueue rq' w)) = Some pa" by simp
    from IH [OF this] show ?thesis
      by (auto simp: emit_def put_runQueue_def)
  qed
qed

lemma spawn_valid:
  assumes spawn: "ProcessQueue_spawn w0 parameters = Some (pid, w1)"
    and nn: "pq pid \<noteq> NULL" and ids: "ids_ok w0"
  shows "unat (pid_id pid) < length (processes w1)
         \<and> pid_gen pid = gen (processes w1 ! unat (pid_id pid))
         \<and> pq pid = Addr (addr w0)
         \<and> length (processes w1) = length (processes w0)
         \<and> (\<forall>i. gen (processes w1 ! i) = gen (processes w0 ! i))"
proof -
  define wa where "wa = w0\<lparr> procCount := procCount w0 + 1 \<rparr>"
  have lt: "procCount w0 < processCap w0"
    using spawn nn by (auto simp: ProcessQueue_spawn_def Let_def null_PID_def split: if_splits)
  with spawn obtain p w2 where pop: "procPool_pop_loop wa = Some (p, w2)"
    and p: "p < length (processes w2)"
    by (auto simp: ProcessQueue_spawn_def Let_def wa_def split: option.splits if_splits)
  from procPool_pop_loop_frame [OF pop] obtain pool t where
    w2: "w2 = wa\<lparr> procPool := pool, trace := t \<rparr>" by blast
  define w3 where "w3 = upd_proc p (\<lambda>proc. proc\<lparr>
                               releaseLock := False,
                               parent := currentProcess w2,
                               processQueue := Addr (addr w2),
                               handler := p_handler parameters,
                               releaseState := p_releaseState parameters,
                               state := initialState parameters,
                               runningState := PS_RUNNING,
                               maxMessagePerCycle :=
                                 (if messageCap parameters > p_maxMessagePerCycle parameters
                                  then p_maxMessagePerCycle parameters else messageCap parameters),
                               messageQueue :=
                                 BoundedQueue_init (messageCap parameters) (messageRelease parameters) \<rparr>) w2"
  from spawn lt pop p have push: "runQueue_push_loop p w3 = Some w1"
    and pid: "pid = \<lparr> pq = Addr (addr w1), pid_id = proc_id (processes w1 ! p),
                      pid_gen = gen (processes w1 ! p) \<rparr>"
    by (auto simp: ProcessQueue_spawn_def Let_def wa_def w3_def split: option.splits if_splits)
  from runQueue_push_loop_frame [OF push] obtain rq t' where
    w1: "w1 = w3\<lparr> runQueue := rq, trace := t' \<rparr>" by blast
  have p0: "p < length (processes w0)" using p by (simp add: w2 wa_def)
  have procs: "addr w1 = addr w0"
    "proc_id (processes w1 ! p) = proc_id (processes w0 ! p)"
    "gen (processes w1 ! p) = gen (processes w0 ! p)"
    using p0 by (simp_all add: w1 w3_def w2 wa_def upd_proc_def)
  have "map (\<lambda>proc. unat (proc_id proc)) (processes w0) ! p = [0 ..< length (processes w0)] ! p"
    using ids by (simp only: ids_ok_def)
  then have "unat (pid_id pid) = p"
    using p0 by (simp add: pid procs)
  moreover have "gen (processes w1 ! i) = gen (processes w0 ! i)" for i
    using procs(3) by (cases "i = p") (simp_all add: w1 w3_def w2 wa_def upd_proc_def)
  moreover have "length (processes w1) = length (processes w0)"
    by (simp add: w1 w3_def w2 wa_def upd_proc_def)
  ultimately show ?thesis using p0 by (simp add: pid procs)
qed

lemma send_mismatch:
  assumes "pq dest = Addr a" "mem a = Some w" "p = unat (pid_id dest)" "p < length (processes w)"
    and "pid_gen dest \<noteq> gen (processes w ! p)"
  shows "Process_sendMessage mem dest message ma =
           Some (if releaseLock (processes w ! p) then (SEND_FAIL, mem(a \<mapsto> w))
                 else (ACTOR_IS_DEAD,
                       mem(a \<mapsto> w\<lparr> trace := trace w @ [LockAcquired p, LockReleased p] \<rparr>)))"
proof (cases "releaseLock (processes w ! p)")
  case True
  then have "(processes w ! p)\<lparr> releaseLock := True \<rparr> = processes w ! p"
    by (cases "processes w ! p") simp
  then have "upd_proc p (\<lambda>proc. proc\<lparr> releaseLock := True \<rparr>) w = w"
    by (simp add: upd_proc_def)
  then show ?thesis
    using assms True by (simp add: Process_sendMessage_def Let_def)
next
  case False
  then have "(processes w ! p)\<lparr> releaseLock := False \<rparr> = processes w ! p"
    by (cases "processes w ! p") simp
  then have "(processes w)[p := (processes w ! p)\<lparr> releaseLock := False \<rparr>] = processes w"
    by simp
  then show ?thesis
    using assms False by (simp add: Process_sendMessage_def Let_def upd_proc_def emit_def)
qed

text \<open>
  C1. Let \<open>dest\<close> point to slot \<open>p\<close> of a runtime \<open>w\<close>. When the generation of \<open>dest\<close>
  differs from that of the slot, \<open>Process_sendMessage\<close> returns \<open>ACTOR_IS_DEAD\<close> if the
  try-lock succeeds, with the lock released again and the runtime, the inbox included,
  as it was but for the trace, and \<open>SEND_FAIL\<close> if the lock is held; it never returns
  \<open>SEND_SUCCESS\<close>. The generations do differ when \<open>dest\<close> was returned by
  \<open>ProcessQueue_spawn\<close>, the process retired (\<open>processRelease\<close> in a state \<open>v\<close> where the slot
  still had the generation of the spawn), and the slot has retired \<open>k\<close> more times since.
\<close>

theorem send_to_retired_process:
  assumes "pq dest = Addr a" "mem a = Some w" "p = unat (pid_id dest)" "p < length (processes w)"
  shows "(pid_gen dest \<noteq> gen (processes w ! p) \<longrightarrow>
            Process_sendMessage mem dest message ma =
              Some (if releaseLock (processes w ! p) then (SEND_FAIL, mem(a \<mapsto> w))
                    else (ACTOR_IS_DEAD,
                          mem(a \<mapsto> w\<lparr> trace := trace w @ [LockAcquired p, LockReleased p] \<rparr>))))
       \<and> (ids_ok w0 \<and> ProcessQueue_spawn w0 parameters = Some (dest, w1)
            \<and> gen (processes v ! p) = gen (processes w1 ! p)
            \<and> processRelease (Addr p) v = Some v'
            \<and> gen (processes w ! p) = gen (processes v' ! p) + k \<longrightarrow>
            pid_gen dest \<noteq> gen (processes w ! p)
            \<and> (\<exists>r mem'. Process_sendMessage mem dest message ma = Some (r, mem')
                  \<and> (r = ACTOR_IS_DEAD \<or> r = SEND_FAIL)))"
proof (rule conjI; rule impI)
  assume "pid_gen dest \<noteq> gen (processes w ! p)"
  then show "Process_sendMessage mem dest message ma =
              Some (if releaseLock (processes w ! p) then (SEND_FAIL, mem(a \<mapsto> w))
                    else (ACTOR_IS_DEAD,
                          mem(a \<mapsto> w\<lparr> trace := trace w @ [LockAcquired p, LockReleased p] \<rparr>)))"
    using send_mismatch [where mem = mem and dest = dest and a = a and w = w and p = p] assms
    by simp
next
  assume h: "ids_ok w0 \<and> ProcessQueue_spawn w0 parameters = Some (dest, w1)
            \<and> gen (processes v ! p) = gen (processes w1 ! p)
            \<and> processRelease (Addr p) v = Some v'
            \<and> gen (processes w ! p) = gen (processes v' ! p) + k"
  have "pq dest \<noteq> NULL" using assms(1) by simp
  from spawn_valid [of w0 parameters dest w1] h this assms(3)
  have g1: "pid_gen dest = gen (processes w1 ! p)" by simp
  from processRelease_gen [of p v v'] h
  have g2: "gen (processes v' ! p) = gen (processes v ! p) + 1" by simp
  have ne: "pid_gen dest \<noteq> gen (processes w ! p)"
    using h g1 g2 by simp
  show "pid_gen dest \<noteq> gen (processes w ! p)
        \<and> (\<exists>r mem'. Process_sendMessage mem dest message ma = Some (r, mem')
                  \<and> (r = ACTOR_IS_DEAD \<or> r = SEND_FAIL))"
    using ne send_mismatch [where mem = mem and dest = dest and a = a and w = w and p = p
        and message = message and ma = ma] assms
    by auto
qed

theorem send_to_retired_process_witness:
  "pq (fst example_spawn) = Addr 100 \<and> [100 \<mapsto> example_retired] (100 :: nat) = Some example_retired
   \<and> 0 = unat (pid_id (fst example_spawn)) \<and> 0 < length (processes example_retired)
   \<and> ids_ok example_runtime
   \<and> ProcessQueue_spawn example_runtime example_parameters = Some (fst example_spawn, snd example_spawn)
   \<and> gen (processes (snd example_spawn) ! 0) = gen (processes (snd example_spawn) ! 0)
   \<and> processRelease (Addr 0) (snd example_spawn) = Some example_retired
   \<and> gen (processes example_retired ! 0) = gen (processes example_retired ! 0) + 0
   \<and> pid_gen (fst example_spawn) \<noteq> gen (processes example_retired ! 0)
   \<and> Process_sendMessage [100 \<mapsto> example_retired] (fst example_spawn) (Addr 55) MA_KEEP =
        Some (ACTOR_IS_DEAD,
              [100 \<mapsto> example_retired\<lparr> trace := trace example_retired @ [LockAcquired 0, LockReleased 0] \<rparr>])"
proof -
  have h1: "pq (fst example_spawn) = Addr 100" by code_simp
  have h2: "[100 \<mapsto> example_retired] (100 :: nat) = Some example_retired" by simp
  have h3: "0 = unat (pid_id (fst example_spawn))" by code_simp
  have h4: "0 < length (processes example_retired)" by code_simp
  have h5: "ids_ok example_runtime" by code_simp
  have h6: "ProcessQueue_spawn example_runtime example_parameters
            = Some (fst example_spawn, snd example_spawn)" by code_simp
  have h7: "processRelease (Addr 0) (snd example_spawn) = Some example_retired" by code_simp
  have h8: "\<not> releaseLock (processes example_retired ! 0)" by code_simp
  note t = send_to_retired_process [where dest = "fst example_spawn" and a = 100
      and mem = "[100 \<mapsto> example_retired]" and w = example_retired and p = 0
      and ?w0.0 = example_runtime and parameters = example_parameters
      and ?w1.0 = "snd example_spawn" and v = "snd example_spawn" and v' = example_retired
      and k = 0 and message = "Addr 55" and ma = MA_KEEP, OF h1 h2 h3 h4]
  from t h5 h6 h7 have ne: "pid_gen (fst example_spawn) \<noteq> gen (processes example_retired ! 0)"
    by simp
  with t h8 have "Process_sendMessage [100 \<mapsto> example_retired] (fst example_spawn) (Addr 55) MA_KEEP =
        Some (ACTOR_IS_DEAD,
              [100 \<mapsto> example_retired\<lparr> trace := trace example_retired @ [LockAcquired 0, LockReleased 0] \<rparr>])"
    by simp
  with ne h1 h2 h3 h4 h5 h6 h7 show ?thesis by simp
qed

subsection \<open>C5: retirement\<close>










text \<open>
  Retirement is the only writer of \<open>gen\<close>: a send and a receive leave every \<open>gen\<close> as it
  is, and so does a spawn (\<open>spawn_valid\<close>).
\<close>

lemma upd_proc_keeps_gen:
  assumes "\<And>proc. gen (f proc) = gen proc"
  shows "map gen (processes (upd_proc p f w)) = map gen (processes w)"
proof (cases "p < length (processes w)")
  case True
  then have "(map gen (processes w))[p := gen (processes w ! p)] = map gen (processes w)"
    by (simp add: list_update_same_conv [THEN iffD2])
  then show ?thesis using assms by (simp add: upd_proc_def map_update)
next
  case False
  then show ?thesis by (simp add: upd_proc_def list_update_beyond)
qed

lemma send_keeps_gen:
  assumes "Process_sendMessage mem dest message ma = Some (r, mem')" "pq dest = Addr a"
    "mem a = Some w"
  shows "\<exists>w'. mem' a = Some w' \<and> map gen (processes w') = map gen (processes w)"
  using assms
  by (auto simp: Process_sendMessage_def Let_def put_inbox_def emit_def emit_under_def
        call_messageRelease_def upd_proc_keeps_gen
      split: option.splits if_splits MessageAction.splits ElementRelease.splits)

lemma receive_keeps_gen:
  assumes "Process_receiveMessage w = Some (msg, w')"
  shows "map gen (processes w') = map gen (processes w)"
  using assms
  by (auto simp: Process_receiveMessage_def put_inbox_def upd_proc_keeps_gen
      split: ptr.splits if_splits)

subsection \<open>Traces of a visit\<close>

lemma handler_calls_append [simp]:
  "handler_calls (t @ t') = handler_calls t + handler_calls t'"
  by (simp add: handler_calls_def)

lemma handler_calls_simps [simp]:
  "handler_calls [] = 0"
  "handler_calls (CallHandler f st msg pct # t) = Suc (handler_calls t)"
  "handler_calls (LockAcquired p # t) = handler_calls t"
  "handler_calls (LockReleased p # t) = handler_calls t"
  "handler_calls (Under p e # t) = handler_calls t"
  "handler_calls (Yield # t) = handler_calls t"
  "handler_calls (Join n # t) = handler_calls t"
  by (simp_all add: handler_calls_def)

lemma handler_calls_Under [simp]: "handler_calls (map (Under p) t) = 0"
  by (induction t) simp_all

lemma handler_calls_retirement [simp]: "handler_calls (retirement p rs ms) = 0"
  by (simp add: retirement_def)

lemma stop_seen_simps [simp]:
  "stop_seen [] = False"
  "stop_seen (CallHandler f st msg pct # t) = (pct = PCT_STOP \<or> stop_seen t)"
  "stop_seen (t @ t') = (stop_seen t \<or> stop_seen t')"
  by (auto simp: stop_seen_def list_ex_iff)

lemma no_calls_no_stop: "handler_calls t = 0 \<Longrightarrow> \<not> stop_seen t"
proof (induction t)
  case (Cons e t)
  then show ?case by (cases e) (auto simp: stop_seen_def handler_calls_def)
qed simp

lemma no_calls_run_state: "handler_calls t = 0 \<Longrightarrow> run_state rs t = rs"
proof (induction t)
  case (Cons e t)
  then show ?case by (cases e) (auto simp: handler_calls_def)
qed simp


lemma run_state_call:
  "run_state rs (CallHandler f st msg pct # t) =
     run_state (case pct of PCT_CONTINUE \<Rightarrow> PS_RUNNING | PCT_WAIT_MESSAGE \<Rightarrow> PS_WAITING
                | PCT_STOP \<Rightarrow> rs) t"
  by simp


subsection \<open>What a visit keeps\<close>

lemma inbox_ok_fields [simp]:
  "inbox_ok p (w\<lparr> currentProcess := c \<rparr>) = inbox_ok p w"
  "inbox_ok p (w\<lparr> trace := t \<rparr>) = inbox_ok p w"
  "inbox_ok p (w\<lparr> runQueue := rq \<rparr>) = inbox_ok p w"
  "inbox_ok p (w\<lparr> procCount := n \<rparr>) = inbox_ok p w"
  "inbox_ok p (w\<lparr> procPool := pool \<rparr>) = inbox_ok p w"
  by (simp_all add: inbox_ok_def get_inbox_def)

lemma pool_ok_fields [simp]:
  "pool_ok p (w\<lparr> currentProcess := c \<rparr>) = pool_ok p w"
  "pool_ok p (w\<lparr> trace := t \<rparr>) = pool_ok p w"
  "pool_ok p (w\<lparr> runQueue := rq \<rparr>) = pool_ok p w"
  "pool_ok p (w\<lparr> procCount := n \<rparr>) = pool_ok p w"
  "pool_ok p (w\<lparr> processes := ps \<rparr>) = pool_ok p w"
  by (simp_all add: pool_ok_def)

lemma runQueue_ok_fields [simp]:
  "runQueue_ok (w\<lparr> currentProcess := c \<rparr>) = runQueue_ok w"
  "runQueue_ok (w\<lparr> trace := t \<rparr>) = runQueue_ok w"
  "runQueue_ok (w\<lparr> procPool := pool \<rparr>) = runQueue_ok w"
  "runQueue_ok (w\<lparr> processes := ps \<rparr>) = runQueue_ok w"
  by (simp_all add: runQueue_ok_def)

lemma visit_inv_fields [simp]:
  "visit_inv p (w\<lparr> currentProcess := c \<rparr>) = visit_inv p w"
  "visit_inv p (w\<lparr> trace := t \<rparr>) = visit_inv p w"
  by (simp_all add: visit_inv_def)


lemma inbox_ok_upd_other:
  "q \<noteq> p \<Longrightarrow> inbox_ok p (upd_proc q f w) = inbox_ok p w"
  by (simp add: inbox_ok_def get_inbox_def upd_proc_def)








subsection \<open>Handlers that spawn\<close>





subsection \<open>Visits in the example runtime\<close>



subsection \<open>C4: the batch of a visit\<close>



subsection \<open>C9: the process goes back onto the run queue\<close>



subsection \<open>C8: teardown\<close>

lemma count_list_Join [simp]: "count_list (map Join xs) (Under i e) = 0"
  by (induction xs) simp_all

lemma count_list_distinct: "distinct ps \<Longrightarrow> count_list ps i = (if i \<in> set ps then 1 else 0)"
  by (induction ps) auto








end
